theory Spec2Isabelle
  imports Complex_Main "HOL-Library.AList"
begin

section \<open>Data model of the list widget (list.go)\<close>

text \<open>
  The widget is a Go struct \<^verbatim>\<open>List\<close> together with its layout object
  \<^verbatim>\<open>listLayout\<close>; the two point at each other, so both are kept in one record.
  Conventions of the embedding:
  \<^item> \<^verbatim>\<open>float32\<close> quantities (heights, offsets) are idealised as \<open>real\<close>: rounding is
    not modelled, and a division by a zero row height, which gives an infinity or a NaN in
    Go, is \<open>0\<close> in HOL;
  \<^item> \<^verbatim>\<open>ListItemID = int\<close> is \<open>int\<close> (no 64-bit wrap-around is reachable by adding a
    slice index to a row number);
  \<^item> a \<^verbatim>\<open>*listItem\<close> pointer is a \<open>handle\<close>: the index of the object in \<open>heap\<close>, so
    that pointer equality is equality of handles and an allocation appends to the heap;
  \<^item> the Go map \<^verbatim>\<open>itemHeights\<close> is an association list written only through
    \<open>AList.update\<close>; its \<^verbatim>\<open>len\<close> is the length of the list;
  \<^item> a callback field is \<open>True\<close> when it is not \<^verbatim>\<open>nil\<close>, and calling it appends an
    event to \<open>trace\<close>; \<open>Length\<close> holds the number the callback returns;
  \<^item> a run-time panic is the left summand of the result.
  Geometry of the canvas objects (\<^verbatim>\<open>Move\<close>, \<^verbatim>\<open>Resize\<close>), the separators and the
  animation of the drag gesture are painting matters of the host toolkit and are left
  out; of the drag gesture only the computation of the insertion point is modelled.
\<close>

type_synonym ListItemID = int
type_synonym handle = nat

datatype error = NilScroller | NilItem

datatype event =
    UpdateItemCall ListItemID handle
  | OnSelectedCall ListItemID
  | OnUnselectedCall ListItemID
  | LogError

record listItem =
  item_id :: ListItemID
  onTapped :: "ListItemID option"
  hovered :: bool
  item_selected :: bool

record listItemAndID =
  vis_item :: handle
  vis_id :: ListItemID

record scroll =
  Offset_Y :: real
  Size_Height :: real

record list_state =
  Length :: "int option"
  CreateItem :: bool
  UpdateItem :: bool
  OnSelected :: bool
  OnUnselected :: bool
  currentFocus :: ListItemID
  focused :: bool
  scroller :: "scroll option"
  selected :: "ListItemID list"
  itemMin_Height :: real
  itemHeights :: "(ListItemID \<times> real) list"
  offsetY :: real
  list_Height :: real
  itemPool :: "handle list"
  visible :: "listItemAndID list"
  wasVisible :: "listItemAndID list"
  visibleRowHeights :: "real list"
  children :: "handle list"
  heap :: "listItem list"
  trace :: "event list"

section \<open>Visible-range computation\<close>

text \<open>
  \<^verbatim>\<open>calculateVisibleRowHeights\<close>, second half: the linear scan used when some row has
  its own height. The loop variables are \<open>i\<close>, \<open>rowOffset\<close>, \<open>isVisible\<close>, and the
  results \<open>offY\<close>, \<open>minRow\<close> and the heights appended so far.
\<close>

function scanRows ::
  "(ListItemID \<times> real) list \<Rightarrow> real \<Rightarrow> real \<Rightarrow> real \<Rightarrow> real \<Rightarrow> int \<Rightarrow>
   int \<Rightarrow> real \<Rightarrow> bool \<Rightarrow> real \<Rightarrow> int \<Rightarrow> real list \<Rightarrow> real \<times> int \<times> real list" where
  "scanRows hts itemHeight padding offs viewH len i rowOffset isVisible offY minRow acc =
     (if i < len then
        (let height = (case map_of hts i of Some h \<Rightarrow> h | None \<Rightarrow> itemHeight);
             hit = (\<not> rowOffset \<le> offs - height - padding \<and> rowOffset \<le> offs);
             minRow' = (if hit then i else minRow);
             offY' = (if hit then rowOffset else offY);
             isVisible' = (hit \<or> isVisible)
         in if rowOffset \<ge> offs + viewH then (offY', minRow', acc)
            else scanRows hts itemHeight padding offs viewH len (i + 1)
                   (rowOffset + (height + padding)) isVisible' offY' minRow'
                   (if isVisible' then acc @ [height] else acc))
      else (offY, minRow, acc))"
  by pat_completeness auto
termination
  by (relation "measure (\<lambda>(hts, itemHeight, padding, offs, viewH, len, i, r). nat (len - i))")
     auto

declare scanRows.simps [simp del]

text \<open>
  \<^verbatim>\<open>calculateVisibleRowHeights(itemHeight, length, th)\<close>. The theme enters only through
  its padding size, the argument \<open>padding\<close>. The result is \<open>offY\<close>, \<open>minRow\<close> and the
  new content of \<^verbatim>\<open>l.visibleRowHeights\<close>; reading the size of a \<^verbatim>\<open>nil\<close> scroller panics.
\<close>

definition calculateVisibleRowHeights ::
  "real \<Rightarrow> int \<Rightarrow> real \<Rightarrow> list_state \<Rightarrow> error + (real \<times> int \<times> real list)" where
  "calculateVisibleRowHeights itemHeight len padding l =
     (case scroller l of
        None \<Rightarrow> Inl NilScroller
      | Some sc \<Rightarrow>
          if Size_Height sc \<le> 0 then Inr (0, 0, [])
          else if itemHeights l = [] then
            (let paddedItemHeight = itemHeight + padding;
                 offY = of_int \<lfloor>offsetY l / paddedItemHeight\<rfloor> * paddedItemHeight;
                 minRow = \<lfloor>offY / paddedItemHeight\<rfloor>;
                 maxRow = \<lceil>(offY + Size_Height sc) / paddedItemHeight\<rceil>;
                 minRow1 = (if minRow > len - 1 then len - 1 else minRow);
                 minRow2 = (if minRow1 < 0 then 0 else minRow1);
                 offY2 = (if minRow1 < 0 then 0 else offY);
                 maxRow1 = (if maxRow > len - 1 then len - 1 else maxRow)
             in Inr (offY2, minRow2, replicate (nat (maxRow1 - minRow2 + 1)) itemHeight))
          else Inr (scanRows (itemHeights l) itemHeight padding (offsetY l) (Size_Height sc)
                      len 0 0 False 0 0 []))"

section \<open>Reconciliation\<close>

text \<open>
  \<^verbatim>\<open>sort.Search(n, f)\<close> of the Go library is a binary search for the least index in
  \<open>[0, n)\<close> at which \<open>f\<close> holds, \<open>n\<close> when there is none; it is right only when \<open>f\<close>
  is monotone. The loop below is the library's: the interval \<open>[i, j)\<close> is halved at
  \<open>h = (i + j) / 2\<close>.
\<close>

function sort_Search :: "(nat \<Rightarrow> bool) \<Rightarrow> nat \<Rightarrow> nat \<Rightarrow> nat" where
  "sort_Search f i j =
     (if i < j then
        (let h = (i + j) div 2
         in if \<not> f h then sort_Search f (h + 1) j else sort_Search f i h)
      else i)"
  by pat_completeness auto
termination
  by (relation "measure (\<lambda>(f, i, j). j - i)") auto

declare sort_Search.simps [simp del]

definition searchVisible :: "listItemAndID list \<Rightarrow> ListItemID \<Rightarrow> handle option" where
  "searchVisible vis ident =
     (let ln = length vis;
          idx = sort_Search (\<lambda>i. vis_id (vis ! i) \<ge> ident) 0 ln
      in if idx < ln \<and> vis_id (vis ! idx) = ident then Some (vis_item (vis ! idx)) else None)"

text \<open>
  \<^verbatim>\<open>getItem\<close>: a handle from the pool, or a new list item around a new child when the
  pool gives nothing. \<^verbatim>\<open>sync.Pool\<close> is modelled as a stack (\<^verbatim>\<open>Put\<close> pushes, \<^verbatim>\<open>Get\<close>
  pops); the library may also drop pooled objects, which only means more allocations.
  With no \<^verbatim>\<open>CreateItem\<close> callback and an empty pool the type assertion
  \<^verbatim>\<open>item.(*listItem)\<close> is applied to \<^verbatim>\<open>nil\<close> and panics.
\<close>

definition newListItem :: listItem where
  "newListItem = \<lparr>item_id = 0, onTapped = None, hovered = False, item_selected = False\<rparr>"

definition getItem :: "list_state \<Rightarrow> error + (handle \<times> list_state)" where
  "getItem l =
     (case itemPool l of
        h # rest \<Rightarrow> Inr (h, l\<lparr>itemPool := rest\<rparr>)
      | [] \<Rightarrow>
          if CreateItem l then Inr (length (heap l), l\<lparr>heap := heap l @ [newListItem]\<rparr>)
          else Inl NilItem)"

text \<open>
  \<^verbatim>\<open>setupListItem(li, id, focus)\<close> binds a handle to a row: it stores the row in the
  item, recomputes the selection indicator, calls \<^verbatim>\<open>UpdateItem\<close> and installs a tap
  handler that selects this row (\<open>onTapped\<close> records the row the closure captures).
\<close>

definition setupListItem :: "handle \<Rightarrow> ListItemID \<Rightarrow> bool \<Rightarrow> list_state \<Rightarrow> list_state" where
  "setupListItem li ident focus l =
     (let it = heap l ! li;
          previousIndicator = item_selected it;
          sel = (ident \<in> set (selected l));
          it1 = it\<lparr>item_id := ident, item_selected := sel\<rparr>;
          it2 = (if focus then it1\<lparr>hovered := True\<rparr>
                 else if previousIndicator \<noteq> sel \<or> hovered it1 then it1\<lparr>hovered := False\<rparr>
                 else it1);
          tr = (if UpdateItem l then trace l @ [UpdateItemCall ident li] else trace l)
      in l\<lparr>heap := (heap l)[li := it2\<lparr>onTapped := Some ident\<rparr>], trace := tr\<rparr>)"

text \<open>
  The three loops of \<^verbatim>\<open>updateList\<close>. \<open>layoutRows\<close> walks \<^verbatim>\<open>l.visibleRowHeights\<close>
  with \<open>index\<close> counting from \<open>0\<close>: the row \<open>index + minRow\<close> keeps the handle it has in
  \<^verbatim>\<open>l.wasVisible\<close>, or takes one from \<open>getItem\<close>. \<open>releaseItems\<close> puts every handle
  of \<^verbatim>\<open>l.wasVisible\<close> whose row is not visible any more into the pool. \<open>setupItems\<close>
  binds the rows: only those that were not visible before when \<open>newOnly\<close>, else all.
  \<open>getItem\<close> returns a list item or panics, so the source's test for a \<^verbatim>\<open>nil\<close> item
  has no case here.
\<close>

fun layoutRows :: "int \<Rightarrow> nat \<Rightarrow> real list \<Rightarrow> list_state \<Rightarrow> error + list_state" where
  "layoutRows minRow index [] l = Inr l"
| "layoutRows minRow index (itemHeight # rest) l =
     (let row = int index + minRow
      in case searchVisible (wasVisible l) row of
           Some c \<Rightarrow>
             layoutRows minRow (index + 1) rest
               (l\<lparr>visible := visible l @ [\<lparr>vis_item = c, vis_id = row\<rparr>],
                  children := children l @ [c]\<rparr>)
         | None \<Rightarrow>
             (case getItem l of
                Inl e \<Rightarrow> Inl e
              | Inr (c, l1) \<Rightarrow>
                  layoutRows minRow (index + 1) rest
                    (l1\<lparr>visible := visible l1 @ [\<lparr>vis_item = c, vis_id = row\<rparr>],
                        children := children l1 @ [c]\<rparr>)))"

fun releaseItems :: "listItemAndID list \<Rightarrow> list_state \<Rightarrow> list_state" where
  "releaseItems [] l = l"
| "releaseItems (wasVis # rest) l =
     releaseItems rest
       (case searchVisible (visible l) (vis_id wasVis) of
          Some c \<Rightarrow> l
        | None \<Rightarrow> l\<lparr>itemPool := vis_item wasVis # itemPool l\<rparr>)"

fun setupItems :: "bool \<Rightarrow> listItemAndID list \<Rightarrow> list_state \<Rightarrow> list_state" where
  "setupItems newOnly [] l = l"
| "setupItems newOnly (vis # rest) l =
     setupItems newOnly rest
       (if newOnly \<and> searchVisible (wasVisible l) (vis_id vis) \<noteq> None then l
        else setupListItem (vis_item vis) (vis_id vis)
               (focused l \<and> currentFocus l = vis_id vis) l)"

text \<open>
  \<^verbatim>\<open>updateList(newOnly)\<close>, one reconciliation pass. When no row height was computed
  although the list has items, the pass returns early, leaving \<^verbatim>\<open>l.wasVisible\<close> filled.
\<close>

definition updateList :: "real \<Rightarrow> bool \<Rightarrow> list_state \<Rightarrow> error + list_state" where
  "updateList padding newOnly l =
     (let len = (case Length l of Some n \<Rightarrow> n | None \<Rightarrow> 0);
          l1 = (if UpdateItem l then l else l\<lparr>trace := trace l @ [LogError]\<rparr>);
          l2 = l1\<lparr>wasVisible := wasVisible l1 @ visible l1, visible := []\<rparr>
      in case calculateVisibleRowHeights (itemMin_Height l2) len padding l2 of
           Inl e \<Rightarrow> Inl e
         | Inr (offY, minRow, hs) \<Rightarrow>
             (let l3 = l2\<lparr>visibleRowHeights := hs\<rparr>
              in if hs = [] \<and> len > 0 then Inr l3
                 else (case layoutRows minRow 0 hs (l3\<lparr>children := []\<rparr>) of
                         Inl e \<Rightarrow> Inl e
                       | Inr l4 \<Rightarrow>
                           (let l5 = releaseItems (wasVisible l4) l4;
                                l6 = setupItems newOnly (visible l5) l5
                            in Inr (l6\<lparr>wasVisible := []\<rparr>)))))"

section \<open>Operations of the widget\<close>

text \<open>
  \<^verbatim>\<open>offsetUpdated(pos)\<close> of the layout: a changed offset is stored and the rows are
  reconciled.
\<close>

definition offsetUpdated :: "real \<Rightarrow> real \<Rightarrow> list_state \<Rightarrow> error + list_state" where
  "offsetUpdated padding posY l =
     (if offsetY l = posY then Inr l
      else updateList padding True (l\<lparr>offsetY := posY\<rparr>))"

text \<open>
  \<^verbatim>\<open>l.Refresh()\<close> is the host's \<^verbatim>\<open>BaseWidget.Refresh\<close>, which runs the renderer's
  \<^verbatim>\<open>Refresh\<close>; what that does to the rows is \<^verbatim>\<open>updateList(false)\<close>. The renderer and
  the scroller are created together, so a list without scroller has no rows to refresh.
\<close>

definition Refresh :: "real \<Rightarrow> list_state \<Rightarrow> error + list_state" where
  "Refresh padding l =
     (case scroller l of None \<Rightarrow> Inr l | Some sc \<Rightarrow> updateList padding False l)"

definition RefreshItem :: "real \<Rightarrow> ListItemID \<Rightarrow> list_state \<Rightarrow> error + list_state" where
  "RefreshItem padding ident l =
     (case scroller l of
        None \<Rightarrow> Inr l
      | Some sc \<Rightarrow>
          (case Refresh padding l of
             Inl e \<Rightarrow> Inl e
           | Inr l1 \<Rightarrow>
               (case searchVisible (visible l1) ident of
                  Some it \<Rightarrow>
                    Inr (setupListItem it ident (focused l1 \<and> currentFocus l1 = ident) l1)
                | None \<Rightarrow> Inr l1)))"

text \<open>
  \<^verbatim>\<open>SetItemHeight(id, height)\<close>: the table is written for every \<open>id\<close>; reading a
  missing key of a Go map gives \<open>0\<close>.
\<close>

definition SetItemHeight ::
  "real \<Rightarrow> ListItemID \<Rightarrow> real \<Rightarrow> list_state \<Rightarrow> error + list_state" where
  "SetItemHeight padding ident height l =
     (let refresh = ((case map_of (itemHeights l) ident of Some h \<Rightarrow> h | None \<Rightarrow> 0) \<noteq> height);
          l1 = l\<lparr>itemHeights := AList.update ident height (itemHeights l)\<rparr>
      in if refresh then RefreshItem padding ident l1 else Inr l1)"

definition rowHeight :: "list_state \<Rightarrow> ListItemID \<Rightarrow> real" where
  "rowHeight l i = (case map_of (itemHeights l) i of Some h \<Rightarrow> h | None \<Rightarrow> itemMin_Height l)"

text \<open>
  \<^verbatim>\<open>scrollTo(id)\<close>: \<open>y\<close> is the top of the row; the scroller's offset is written
  directly and the layout is told. After the loop \<open>i\<close> is \<open>id\<close>, or \<open>0\<close> when the loop
  did not run.
\<close>

definition scrollTo :: "real \<Rightarrow> ListItemID \<Rightarrow> list_state \<Rightarrow> error + list_state" where
  "scrollTo separatorThickness ident l =
     (case scroller l of
        None \<Rightarrow> Inr l
      | Some sc \<Rightarrow>
          (let y = (if itemHeights l = []
                    then of_int ident * itemMin_Height l + of_int ident * separatorThickness
                    else fold (\<lambda>i y. y + (rowHeight l i + separatorThickness)) [0..ident - 1] 0);
               lastItemHeight = (if itemHeights l = [] then itemMin_Height l
                                 else rowHeight l (max 0 ident));
               sc1 = (if y < Offset_Y sc then sc\<lparr>Offset_Y := y\<rparr>
                      else if y + itemMin_Height l > Offset_Y sc + Size_Height sc
                      then sc\<lparr>Offset_Y := y + lastItemHeight - Size_Height sc\<rparr>
                      else sc)
           in offsetUpdated separatorThickness (Offset_Y sc1) (l\<lparr>scroller := Some sc1\<rparr>)))"

text \<open>
  \<^verbatim>\<open>Select(id)\<close>. The deferred function runs last: \<^verbatim>\<open>OnUnselected\<close> for the head of
  the old selection, then \<^verbatim>\<open>OnSelected\<close>. A panic ends the model's run; no state is
  kept after it.
\<close>

definition Select :: "real \<Rightarrow> ListItemID \<Rightarrow> list_state \<Rightarrow> error + list_state" where
  "Select padding ident l =
     (if selected l \<noteq> [] \<and> ident = hd (selected l) then Inr l
      else
        (let len = (case Length l of Some n \<Rightarrow> n | None \<Rightarrow> 0)
         in if ident < 0 \<or> ident \<ge> len then Inr l
            else
              (let old = selected l;
                   l1 = l\<lparr>selected := [ident]\<rparr>
               in case scrollTo padding ident l1 of
                    Inl e \<Rightarrow> Inl e
                  | Inr l2 \<Rightarrow>
                      (case Refresh padding l2 of
                         Inl e \<Rightarrow> Inl e
                       | Inr l3 \<Rightarrow>
                           (let l4 = (if OnUnselected l3 \<and> old \<noteq> []
                                      then l3\<lparr>trace := trace l3 @ [OnUnselectedCall (hd old)]\<rparr>
                                      else l3);
                                l5 = (if OnSelected l4
                                      then l4\<lparr>trace := trace l4 @ [OnSelectedCall ident]\<rparr>
                                      else l4)
                            in Inr l5)))))"

definition ScrollTo :: "real \<Rightarrow> ListItemID \<Rightarrow> list_state \<Rightarrow> error + list_state" where
  "ScrollTo padding ident l =
     (let len = (case Length l of Some n \<Rightarrow> n | None \<Rightarrow> 0)
      in if ident < 0 \<or> ident \<ge> len then Inr l
         else (case scrollTo padding ident l of
                 Inl e \<Rightarrow> Inl e
               | Inr l1 \<Rightarrow> Refresh padding l1))"

text \<open>
  \<^verbatim>\<open>contentMinSize().Height\<close>. The loop over the height table counts the entries
  whose key is below the item count and adds their heights up.
\<close>

definition contentMinSize_Height :: "real \<Rightarrow> list_state \<Rightarrow> real" where
  "contentMinSize_Height separatorThickness l =
     (case Length l of
        None \<Rightarrow> 0
      | Some items \<Rightarrow>
          if itemHeights l = []
          then (itemMin_Height l + separatorThickness) * of_int items - separatorThickness
          else
            (let (height, totalCustom) =
                   fold (\<lambda>(ident, itemHeight) (height, totalCustom).
                           if ident < items then (height + itemHeight, totalCustom + 1)
                           else (height, totalCustom))
                        (itemHeights l) (0, 0::int)
             in height + of_int (items - totalCustom) * itemMin_Height l
                  + separatorThickness * of_int (items - 1)))"

text \<open>
  \<^verbatim>\<open>ScrollToOffset(offset)\<close>. The list clamps the request to \<open>[0, contentHeight]\<close> and
  hands it to the scroll container of the host; \<open>scrollerTo\<close> stands for that container's
  \<^verbatim>\<open>ScrollToOffset\<close>, which is not part of this program, and the offset of the list is
  read back from the container.
\<close>

definition ScrollToOffset ::
  "real \<Rightarrow> (scroll \<Rightarrow> real \<Rightarrow> scroll) \<Rightarrow> real \<Rightarrow> list_state \<Rightarrow> error + list_state" where
  "ScrollToOffset padding scrollerTo offset l =
     (case scroller l of
        None \<Rightarrow> Inr l
      | Some sc \<Rightarrow>
          (let offset1 = (if offset < 0 then 0 else offset);
               contentHeight = contentMinSize_Height padding l
           in if list_Height l \<ge> contentHeight then Inr l
              else
                (let offset2 = (if offset1 > contentHeight then contentHeight else offset1);
                     sc1 = scrollerTo sc offset2
                 in offsetUpdated padding (Offset_Y sc1) (l\<lparr>scroller := Some sc1\<rparr>))))"

section \<open>The drag separator\<close>

text \<open>
  \<^verbatim>\<open>math.Round\<close> rounds to the nearest integer, halves away from zero.
\<close>

definition goRound :: "real \<Rightarrow> int" where
  "goRound x = (if 0 \<le> x then \<lfloor>x + 1 / 2\<rfloor> else - \<lfloor>1 / 2 - x\<rfloor>)"

text \<open>
  \<^verbatim>\<open>calculateDragSeparatorY(thickness)\<close>. \<open>dragRelativeY\<close> is the field of the layout
  that the drag gesture writes, \<open>padding\<close> the padding of the theme. The result is the
  position of the separator and the row written to \<^verbatim>\<open>l.dragInsertAt\<close>, \<open>None\<close> when the
  field is not written. The insertion point is computed only while the height table is
  empty; the source leaves the other case as a to-do and returns 0.
\<close>

definition calculateDragSeparatorY ::
  "real \<Rightarrow> real \<Rightarrow> real \<Rightarrow> list_state \<Rightarrow> error + (real \<times> ListItemID option)" where
  "calculateDragSeparatorY thickness padding dragRelativeY l =
     (case scroller l of
        None \<Rightarrow> Inl NilScroller
      | Some sc \<Rightarrow>
          if Size_Height sc \<le> 0 then Inr (0, None)
          else
            (let relY = (if dragRelativeY < 0 then 0
                         else if dragRelativeY > list_Height l then list_Height l
                         else dragRelativeY);
                 numItems = (case Length l of Some n \<Rightarrow> n | None \<Rightarrow> 0)
             in if itemHeights l = [] then
                  (let paddedItemHeight = itemMin_Height l + padding;
                       beforeItem = goRound ((relY + offsetY l) / paddedItemHeight);
                       beforeItem1 = (if beforeItem > numItems then numItems else beforeItem);
                       y = of_int beforeItem1 * paddedItemHeight - padding / 2 - thickness
                   in Inr (y, Some beforeItem1))
                else Inr (0, None)))"

section \<open>Vocabulary of the properties\<close>

text \<open>
  \<open>widget\<close> forgets the fields of the layout object and the event trace, and keeps what
  belongs to the \<^verbatim>\<open>List\<close> struct. \<open>listLen\<close> is the item count as every operation reads
  it; \<open>beginPass\<close> and \<open>endPass\<close> name the first and the last statements of
  \<^verbatim>\<open>updateList\<close>.
\<close>

definition widget :: "list_state \<Rightarrow> list_state" where
  "widget l = l\<lparr>itemPool := [], visible := [], wasVisible := [], visibleRowHeights := [],
                 children := [], heap := [], trace := []\<rparr>"

definition listLen :: "list_state \<Rightarrow> int" where
  "listLen l = (case Length l of Some n \<Rightarrow> n | None \<Rightarrow> 0)"

definition beginPass :: "list_state \<Rightarrow> list_state" where
  "beginPass l = (if UpdateItem l then l else l\<lparr>trace := trace l @ [LogError]\<rparr>)
                   \<lparr>wasVisible := wasVisible l @ visible l, visible := []\<rparr>"

definition endPass :: "bool \<Rightarrow> list_state \<Rightarrow> list_state" where
  "endPass newOnly l4 =
     (setupItems newOnly (visible (releaseItems (wasVisible l4) l4))
        (releaseItems (wasVisible l4) l4))\<lparr>wasVisible := []\<rparr>"

text \<open>
  The selection callbacks among the events; \<open>quiet tr tr'\<close> says that \<open>tr'\<close> extends
  \<open>tr\<close> by events that are no selection callbacks.
\<close>

fun selectionEvent :: "event \<Rightarrow> bool" where
  "selectionEvent (OnSelectedCall i) = True"
| "selectionEvent (OnUnselectedCall i) = True"
| "selectionEvent e = False"

definition quiet :: "event list \<Rightarrow> event list \<Rightarrow> bool" where
  "quiet tr tr' = (\<exists>es. tr' = tr @ es \<and> (\<forall>e\<in>set es. \<not> selectionEvent e))"

text \<open>
  The fields of the widget that no reconciliation and no scrolling touches, as far as the
  selection is concerned.
\<close>

definition callbacks ::
  "list_state \<Rightarrow> ListItemID list \<times> bool \<times> bool \<times> bool \<times> int option" where
  "callbacks l = (selected l, OnSelected l, OnUnselected l, CreateItem l, Length l)"

text \<open>
  The pool invariant. \<open>handles\<close> are the list items of a visible set. A handle is
  \<open>bound\<close> to its row when the item stores the row and its tap handler selects it. In
  a \<open>wellFormed\<close> state the rows of \<^verbatim>\<open>wasVisible\<close> followed by \<^verbatim>\<open>visible\<close> ascend
  strictly, no handle occurs twice among them and the pool, every handle points into the
  heap, and every handle in use is bound to its row. \<open>laying\<close> is what holds of the
  state while \<open>layoutRows\<close> runs.
\<close>

definition handles :: "listItemAndID list \<Rightarrow> handle list" where
  "handles vis = map vis_item vis"

definition bound :: "list_state \<Rightarrow> listItemAndID \<Rightarrow> bool" where
  "bound l v = (item_id (heap l ! vis_item v) = vis_id v \<and>
                onTapped (heap l ! vis_item v) = Some (vis_id v))"

definition wellFormed :: "list_state \<Rightarrow> bool" where
  "wellFormed l = (sorted_wrt (<) (map vis_id (wasVisible l @ visible l)) \<and>
           distinct (handles (wasVisible l @ visible l) @ itemPool l) \<and>
           (\<forall>h \<in> set (handles (wasVisible l @ visible l) @ itemPool l). h < length (heap l)) \<and>
           (\<forall>v \<in> set (wasVisible l @ visible l). bound l v))"

definition laying :: "list_state \<Rightarrow> bool" where
  "laying l = (distinct (handles (wasVisible l)) \<and> distinct (handles (visible l)) \<and>
     distinct (itemPool l) \<and>
     set (itemPool l) \<inter> set (handles (wasVisible l)) = {} \<and>
     set (itemPool l) \<inter> set (handles (visible l)) = {} \<and>
     (\<forall>h \<in> set (handles (wasVisible l)) \<union> set (handles (visible l)) \<union> set (itemPool l).
         h < length (heap l)) \<and>
     (\<forall>w \<in> set (visible l). w \<in> set (wasVisible l) \<or>
         (vis_item w \<notin> set (handles (wasVisible l)) \<and>
          searchVisible (wasVisible l) (vis_id w) = None)))"



text \<open>
  A list that has its renderer but has not been laid out yet: all callbacks are set,
  nothing is selected, pooled or visible.
\<close>

definition newList ::
  "int \<Rightarrow> real \<Rightarrow> real \<Rightarrow> real \<Rightarrow> (ListItemID \<times> real) list \<Rightarrow> list_state" where
  "newList items itemHeight viewH offs hts =
     \<lparr>Length = Some items, CreateItem = True, UpdateItem = True, OnSelected = True,
      OnUnselected = True, currentFocus = 0, focused = False,
      scroller = Some \<lparr>Offset_Y = offs, Size_Height = viewH\<rparr>, selected = [],
      itemMin_Height = itemHeight, itemHeights = hts, offsetY = offs, list_Height = viewH,
      itemPool = [], visible = [], wasVisible = [], visibleRowHeights = [], children = [],
      heap = [], trace = []\<rparr>"

text \<open>
  Three states of a list of ten items of height 10 in a viewport of height 25, without
  padding: after the first layout, and after the offset has moved to 10 and then to 20.
\<close>

definition laidOut :: list_state where
  "laidOut = projr (updateList 0 True (newList 10 10 25 0 []))"

definition scrolledOnce :: list_state where
  "scrolledOnce = projr (offsetUpdated 0 10 laidOut)"

definition scrolledTwice :: list_state where
  "scrolledTwice = projr (offsetUpdated 0 20 scrolledOnce)"

text \<open>
  A list of three items of height 30 in a viewport of height 80, without padding, laid
  out, and then the height of its last row set to 1.
\<close>

definition overridden :: list_state where
  "overridden = projr (SetItemHeight 0 2 1 (projr (updateList 0 True (newList 3 30 80 0 []))))"

section \<open>What a pass changes\<close>

lemma widget_fields:
  "Length (widget l) = Length l" "CreateItem (widget l) = CreateItem l"
  "UpdateItem (widget l) = UpdateItem l" "OnSelected (widget l) = OnSelected l"
  "OnUnselected (widget l) = OnUnselected l" "currentFocus (widget l) = currentFocus l"
  "focused (widget l) = focused l" "scroller (widget l) = scroller l"
  "selected (widget l) = selected l" "itemMin_Height (widget l) = itemMin_Height l"
  "itemHeights (widget l) = itemHeights l" "offsetY (widget l) = offsetY l"
  "list_Height (widget l) = list_Height l"
  by (simp_all add: widget_def)

lemma getItem_frame:
  "getItem l = Inr (c, l1) \<Longrightarrow>
   widget l1 = widget l \<and> visible l1 = visible l \<and> wasVisible l1 = wasVisible l \<and>
   children l1 = children l \<and> trace l1 = trace l \<and> visibleRowHeights l1 = visibleRowHeights l"
  by (auto simp: getItem_def widget_def split: list.splits if_splits)

lemma layoutRows_frame:
  "layoutRows m i hs l = Inr l' \<Longrightarrow>
   widget l' = widget l \<and> wasVisible l' = wasVisible l \<and> trace l' = trace l \<and>
   visibleRowHeights l' = visibleRowHeights l"
proof (induction hs arbitrary: i l)
  case Nil
  then show ?case by simp
next
  case (Cons h hs)
  show ?case
  proof (cases "searchVisible (wasVisible l) (int i + m)")
    case None
    with Cons.prems obtain c l1 where g: "getItem l = Inr (c, l1)"
      and r: "layoutRows m (i + 1) hs (l1\<lparr>visible := visible l1 @ [\<lparr>vis_item = c, vis_id = int i + m\<rparr>],
                        children := children l1 @ [c]\<rparr>) = Inr l'"
      by (auto simp: Let_def split: sum.splits)
    from Cons.IH[OF r] getItem_frame[OF g] show ?thesis by (simp add: widget_def)
  next
    case (Some c)
    with Cons.prems have r: "layoutRows m (i + 1) hs (l\<lparr>visible := visible l @ [\<lparr>vis_item = c, vis_id = int i + m\<rparr>],
                        children := children l @ [c]\<rparr>) = Inr l'"
      by (auto simp: Let_def)
    from Cons.IH[OF r] show ?thesis by (simp add: widget_def)
  qed
qed

lemma layoutRows_visible_ids:
  "layoutRows m i hs l = Inr l' \<Longrightarrow>
   map vis_id (visible l') = map vis_id (visible l) @ map (\<lambda>k. int k + m) [i..<i + length hs]"
proof (induction hs arbitrary: i l)
  case Nil
  then show ?case by simp
next
  case (Cons h hs)
  have up: "[i..<i + length (h # hs)] = i # [i + 1..<(i + 1) + length hs]"
    by (subst upt_rec) simp
  show ?case
  proof (cases "searchVisible (wasVisible l) (int i + m)")
    case None
    with Cons.prems obtain c l1 where g: "getItem l = Inr (c, l1)"
      and r: "layoutRows m (i + 1) hs (l1\<lparr>visible := visible l1 @ [\<lparr>vis_item = c, vis_id = int i + m\<rparr>],
                        children := children l1 @ [c]\<rparr>) = Inr l'"
      by (auto simp: Let_def split: sum.splits)
    from Cons.IH[OF r] getItem_frame[OF g] show ?thesis unfolding up by simp
  next
    case (Some c)
    with Cons.prems have r: "layoutRows m (i + 1) hs (l\<lparr>visible := visible l @ [\<lparr>vis_item = c, vis_id = int i + m\<rparr>],
                        children := children l @ [c]\<rparr>) = Inr l'"
      by (auto simp: Let_def)
    from Cons.IH[OF r] show ?thesis unfolding up by simp
  qed
qed

lemma releaseItems_frame:
  "widget (releaseItems ws l) = widget l \<and> visible (releaseItems ws l) = visible l \<and>
   wasVisible (releaseItems ws l) = wasVisible l \<and> trace (releaseItems ws l) = trace l \<and>
   heap (releaseItems ws l) = heap l \<and> children (releaseItems ws l) = children l \<and>
   visibleRowHeights (releaseItems ws l) = visibleRowHeights l"
  by (induction ws arbitrary: l) (auto simp: widget_def split: option.splits)

lemma setupListItem_frame:
  "widget (setupListItem c i f l) = widget l \<and> visible (setupListItem c i f l) = visible l \<and>
   wasVisible (setupListItem c i f l) = wasVisible l \<and>
   itemPool (setupListItem c i f l) = itemPool l \<and>
   children (setupListItem c i f l) = children l \<and>
   visibleRowHeights (setupListItem c i f l) = visibleRowHeights l \<and>
   length (heap (setupListItem c i f l)) = length (heap l)"
  by (simp add: setupListItem_def widget_def Let_def)

lemma setupItems_frame:
  "widget (setupItems b vs l) = widget l \<and> visible (setupItems b vs l) = visible l \<and>
   wasVisible (setupItems b vs l) = wasVisible l \<and>
   itemPool (setupItems b vs l) = itemPool l \<and>
   children (setupItems b vs l) = children l \<and>
   visibleRowHeights (setupItems b vs l) = visibleRowHeights l \<and>
   length (heap (setupItems b vs l)) = length (heap l)"
proof (induction vs arbitrary: l)
  case Nil
  then show ?case by simp
next
  case (Cons v vs)
  show ?case
  proof (cases "b \<and> searchVisible (wasVisible l) (vis_id v) \<noteq> None")
    case True
    then have "setupItems b (v # vs) l = setupItems b vs l" by simp
    then show ?thesis using Cons.IH[of l] by simp
  next
    case False
    define l1 where "l1 = setupListItem (vis_item v) (vis_id v) (focused l \<and> currentFocus l = vis_id v) l"
    from False have "setupItems b (v # vs) l = setupItems b vs l1" by (auto simp: l1_def)
    then show ?thesis
      using Cons.IH[of l1] setupListItem_frame[of "vis_item v" "vis_id v" "focused l \<and> currentFocus l = vis_id v" l]
      by (simp add: l1_def)
  qed
qed


lemma beginPass_fields:
  "widget (beginPass l) = widget l" "visible (beginPass l) = []"
  "wasVisible (beginPass l) = wasVisible l @ visible l"
  "heap (beginPass l) = heap l" "itemPool (beginPass l) = itemPool l"
  "trace (beginPass l) = (if UpdateItem l then trace l else trace l @ [LogError])"
  by (simp_all add: beginPass_def widget_def)

lemma updateList_unfold:
  "updateList padding newOnly l =
     (case calculateVisibleRowHeights (itemMin_Height (beginPass l)) (listLen l) padding (beginPass l) of
        Inl e \<Rightarrow> Inl e
      | Inr (offY, minRow, hs) \<Rightarrow>
          if hs = [] \<and> listLen l > 0 then Inr ((beginPass l)\<lparr>visibleRowHeights := hs\<rparr>)
          else (case layoutRows minRow 0 hs ((beginPass l)\<lparr>visibleRowHeights := hs, children := []\<rparr>) of
                  Inl e \<Rightarrow> Inl e
                | Inr l4 \<Rightarrow> Inr (endPass newOnly l4)))"
  unfolding updateList_def Let_def listLen_def beginPass_def endPass_def
  by (simp only: if_distrib[of "\<lambda>x. x\<lparr>wasVisible := _, visible := _\<rparr>"] cong: if_cong)
     (simp cong: if_cong sum.case_cong)

lemma updateList_cases:
  assumes u: "updateList padding newOnly l = Inr l'"
  obtains (early) offY minRow where
      "calculateVisibleRowHeights (itemMin_Height (beginPass l)) (listLen l) padding (beginPass l)
         = Inr (offY, minRow, [])"
      "listLen l > 0"
      "l' = (beginPass l)\<lparr>visibleRowHeights := []\<rparr>"
  | (full) offY minRow hs l4 where
      "calculateVisibleRowHeights (itemMin_Height (beginPass l)) (listLen l) padding (beginPass l)
         = Inr (offY, minRow, hs)"
      "\<not> (hs = [] \<and> listLen l > 0)"
      "layoutRows minRow 0 hs ((beginPass l)\<lparr>visibleRowHeights := hs, children := []\<rparr>) = Inr l4"
      "l' = endPass newOnly l4"
proof (cases "calculateVisibleRowHeights (itemMin_Height (beginPass l)) (listLen l) padding (beginPass l)")
  case (Inl e)
  with u show ?thesis by (simp add: updateList_unfold)
next
  case (Inr t)
  obtain offY minRow hs where t: "t = (offY, minRow, hs)" by (cases t) auto
  show ?thesis
  proof (cases "hs = [] \<and> listLen l > 0")
    case True
    with u Inr t have "l' = (beginPass l)\<lparr>visibleRowHeights := []\<rparr>"
      by (simp add: updateList_unfold)
    with True Inr t show ?thesis using early[of offY minRow] by simp
  next
    case False
    show ?thesis
    proof (cases "layoutRows minRow 0 hs ((beginPass l)\<lparr>visibleRowHeights := hs, children := []\<rparr>)")
      case (Inl e)
      with u Inr t False show ?thesis by (simp add: updateList_unfold)
    next
      case l4: (Inr l4)
      with u Inr t False have "l' = endPass newOnly l4" by (simp add: updateList_unfold)
      with False Inr t l4 show ?thesis using full[of offY minRow hs l4] by simp
    qed
  qed
qed

lemma endPass_fields:
  "widget (endPass b l4) = widget l4" "visible (endPass b l4) = visible l4"
  "wasVisible (endPass b l4) = []" "children (endPass b l4) = children l4"
  "visibleRowHeights (endPass b l4) = visibleRowHeights l4"
  "length (heap (endPass b l4)) = length (heap l4)"
  using setupItems_frame[of b "visible (releaseItems (wasVisible l4) l4)" "releaseItems (wasVisible l4) l4"]
    releaseItems_frame[of "wasVisible l4" l4]
  by (simp_all add: endPass_def widget_def)

lemma sorted_rows: "sorted_wrt (<) (map (\<lambda>k. int k + m) [i..<j])"
  by (simp add: sorted_wrt_map sorted_wrt_upt)

lemma updateList_visible_ids:
  assumes "updateList padding newOnly l = Inr l'"
  shows "\<exists>minRow n. map vis_id (visible l') = map (\<lambda>k. int k + minRow) [0..<n]"
  using assms
proof (cases rule: updateList_cases)
  case (early offY minRow)
  then have "map vis_id (visible l') = map (\<lambda>k. int k + 0) [0..<0]"
    by (simp add: beginPass_fields)
  then show ?thesis by blast
next
  case (full offY minRow hs l4)
  have "visible l' = visible l4" using full(4) by (simp add: endPass_fields)
  moreover have "map vis_id (visible l4) = map (\<lambda>k. int k + minRow) [0..<0 + length hs]"
    using layoutRows_visible_ids[OF full(3)] by (simp add: beginPass_fields)
  ultimately show ?thesis by auto
qed

lemma updateList_widget:
  assumes "updateList padding newOnly l = Inr l'"
  shows "widget l' = widget l"
  using assms
proof (cases rule: updateList_cases)
  case (early offY minRow)
  then show ?thesis using beginPass_fields(1)[of l] by (simp add: widget_def)
next
  case (full offY minRow hs l4)
  have "widget l4 = widget (beginPass l)" using layoutRows_frame[OF full(3)] by (simp add: widget_def)
  then show ?thesis using full(4) by (simp add: endPass_fields beginPass_fields)
qed

lemma quiet_refl: "quiet tr tr"
  by (simp add: quiet_def)

lemma quiet_trans: "quiet a b \<Longrightarrow> quiet b c \<Longrightarrow> quiet a c"
  by (auto simp: quiet_def)

lemma quiet_snoc: "\<not> selectionEvent e \<Longrightarrow> quiet tr (tr @ [e])"
  by (simp add: quiet_def)

lemma setupListItem_quiet: "quiet (trace l) (trace (setupListItem c i f l))"
  by (simp add: setupListItem_def Let_def quiet_refl quiet_snoc)

lemma setupItems_quiet: "quiet (trace l) (trace (setupItems b vs l))"
proof (induction vs arbitrary: l)
  case Nil
  then show ?case by (simp add: quiet_refl)
next
  case (Cons v vs)
  show ?case
  proof (cases "b \<and> searchVisible (wasVisible l) (vis_id v) \<noteq> None")
    case True
    then have "setupItems b (v # vs) l = setupItems b vs l" by simp
    then show ?thesis using Cons.IH[of l] by simp
  next
    case False
    define l1 where "l1 = setupListItem (vis_item v) (vis_id v) (focused l \<and> currentFocus l = vis_id v) l"
    from False have "setupItems b (v # vs) l = setupItems b vs l1" by (auto simp: l1_def)
    moreover have "quiet (trace l) (trace l1)" unfolding l1_def by (rule setupListItem_quiet)
    ultimately show ?thesis using Cons.IH[of l1] quiet_trans by metis
  qed
qed

lemma endPass_quiet: "quiet (trace l4) (trace (endPass b l4))"
  using setupItems_quiet[of "releaseItems (wasVisible l4) l4" b "visible (releaseItems (wasVisible l4) l4)"]
  by (simp add: endPass_def releaseItems_frame)

lemma beginPass_quiet: "quiet (trace l) (trace (beginPass l))"
  by (simp add: beginPass_fields quiet_refl quiet_snoc)

lemma updateList_quiet:
  assumes "updateList padding newOnly l = Inr l'"
  shows "quiet (trace l) (trace l')"
  using assms
proof (cases rule: updateList_cases)
  case (early offY minRow)
  then have "trace l' = trace (beginPass l)" by simp
  then show ?thesis using beginPass_quiet[of l] by simp
next
  case (full offY minRow hs l4)
  have "trace l4 = trace (beginPass l)" using layoutRows_frame[OF full(3)] by simp
  then show ?thesis using full(4) beginPass_quiet[of l] endPass_quiet[of l4 newOnly] quiet_trans
    by metis
qed

section \<open>Selection and scrolling keep the callbacks quiet\<close>

lemma callbacks_widget: "widget l' = widget l \<Longrightarrow> callbacks l' = callbacks l"
  by (simp add: callbacks_def) (metis widget_fields(1,2,4,5,9))

lemma offsetUpdated_frame:
  assumes "offsetUpdated padding y l = Inr l'"
  shows "callbacks l' = callbacks l \<and> quiet (trace l) (trace l')"
proof (cases "offsetY l = y")
  case True
  with assms show ?thesis by (simp add: offsetUpdated_def quiet_refl)
next
  case False
  with assms have u: "updateList padding True (l\<lparr>offsetY := y\<rparr>) = Inr l'"
    by (simp add: offsetUpdated_def)
  have "callbacks l' = callbacks (l\<lparr>offsetY := y\<rparr>)"
    using updateList_widget[OF u] by (rule callbacks_widget)
  moreover have "quiet (trace (l\<lparr>offsetY := y\<rparr>)) (trace l')" using updateList_quiet[OF u] .
  ultimately show ?thesis by (simp add: callbacks_def)
qed

lemma scrollTo_frame:
  assumes "scrollTo padding ident l = Inr l'"
  shows "callbacks l' = callbacks l \<and> quiet (trace l) (trace l')"
proof (cases "scroller l")
  case None
  with assms show ?thesis by (simp add: scrollTo_def quiet_refl)
next
  case (Some sc)
  with assms obtain sc1 where "offsetUpdated padding (Offset_Y sc1) (l\<lparr>scroller := Some sc1\<rparr>) = Inr l'"
    by (simp add: scrollTo_def Let_def)
  from offsetUpdated_frame[OF this] show ?thesis by (simp add: callbacks_def)
qed

lemma Refresh_frame:
  assumes "Refresh padding l = Inr l'"
  shows "callbacks l' = callbacks l \<and> quiet (trace l) (trace l')"
proof (cases "scroller l")
  case None
  with assms show ?thesis by (simp add: Refresh_def quiet_refl)
next
  case (Some sc)
  with assms have u: "updateList padding False l = Inr l'" by (simp add: Refresh_def)
  show ?thesis using callbacks_widget[OF updateList_widget[OF u]] updateList_quiet[OF u] by simp
qed

lemma getItem_total: "CreateItem l \<Longrightarrow> \<exists>c l1. getItem l = Inr (c, l1)"
  by (simp add: getItem_def split: list.splits)

lemma getItem_CreateItem: "getItem l = Inr (c, l1) \<Longrightarrow> CreateItem l1 = CreateItem l"
  using getItem_frame[of l c l1] widget_fields(2) by metis

lemma layoutRows_total: "CreateItem l \<Longrightarrow> \<exists>l'. layoutRows m i hs l = Inr l'"
proof (induction hs arbitrary: i l)
  case Nil
  then show ?case by simp
next
  case (Cons h hs)
  show ?case
  proof (cases "searchVisible (wasVisible l) (int i + m)")
    case None
    from getItem_total[OF Cons.prems] obtain c l1 where g: "getItem l = Inr (c, l1)" by blast
    have "CreateItem (l1\<lparr>visible := visible l1 @ [\<lparr>vis_item = c, vis_id = int i + m\<rparr>],
                        children := children l1 @ [c]\<rparr>)"
      using getItem_CreateItem[OF g] Cons.prems by simp
    from Cons.IH[OF this, of "i + 1"] None g show ?thesis by (simp add: Let_def)
  next
    case (Some c)
    have "CreateItem (l\<lparr>visible := visible l @ [\<lparr>vis_item = c, vis_id = int i + m\<rparr>],
                        children := children l @ [c]\<rparr>)"
      using Cons.prems by simp
    from Cons.IH[OF this, of "i + 1"] Some show ?thesis by (simp add: Let_def)
  qed
qed

lemma calculateVisibleRowHeights_total:
  "scroller l = Some sc \<Longrightarrow> \<exists>offY minRow hs. calculateVisibleRowHeights h n padding l = Inr (offY, minRow, hs)"
proof -
  assume "scroller l = Some sc"
  then have "\<exists>t. calculateVisibleRowHeights h n padding l = Inr t"
    by (auto simp: calculateVisibleRowHeights_def Let_def) (metis prod_cases3)
  then obtain t where t: "calculateVisibleRowHeights h n padding l = Inr t" by blast
  obtain offY minRow hs where "t = (offY, minRow, hs)" by (cases t) auto
  with t show ?thesis by blast
qed

lemma updateList_total:
  assumes "CreateItem l" "scroller l = Some sc"
  shows "\<exists>l'. updateList padding newOnly l = Inr l'"
proof -
  have sc: "scroller (beginPass l) = Some sc" and ci: "CreateItem (beginPass l)"
    using assms beginPass_fields(1)[of l] widget_fields(2,8) by metis+
  from calculateVisibleRowHeights_total[OF sc] obtain offY minRow hs where
    calc: "calculateVisibleRowHeights (itemMin_Height (beginPass l)) (listLen l) padding (beginPass l)
       = Inr (offY, minRow, hs)"
    by blast
  from ci have "CreateItem ((beginPass l)\<lparr>visibleRowHeights := hs, children := []\<rparr>)" by simp
  from layoutRows_total[OF this, of minRow 0 hs] calc show ?thesis
    by (auto simp: updateList_unfold)
qed

lemma offsetUpdated_total:
  assumes "CreateItem l" "scroller l = Some sc"
  shows "\<exists>l'. offsetUpdated padding y l = Inr l'"
proof (cases "offsetY l = y")
  case True
  then show ?thesis by (simp add: offsetUpdated_def)
next
  case False
  have "\<exists>l'. updateList padding True (l\<lparr>offsetY := y\<rparr>) = Inr l'"
    using assms by (intro updateList_total[of _ sc]) simp_all
  with False show ?thesis by (simp add: offsetUpdated_def)
qed

lemma scrollTo_total:
  assumes "CreateItem l"
  shows "\<exists>l'. scrollTo padding ident l = Inr l'"
proof (cases "scroller l")
  case None
  then show ?thesis by (simp add: scrollTo_def)
next
  case (Some sc)
  then obtain sc1 where
    "scrollTo padding ident l = offsetUpdated padding (Offset_Y sc1) (l\<lparr>scroller := Some sc1\<rparr>)"
    by (simp add: scrollTo_def Let_def)
  moreover have "\<exists>l'. offsetUpdated padding (Offset_Y sc1) (l\<lparr>scroller := Some sc1\<rparr>) = Inr l'"
    using assms by (intro offsetUpdated_total[of _ sc1]) simp_all
  ultimately show ?thesis by simp
qed

lemma Refresh_total:
  assumes "CreateItem l"
  shows "\<exists>l'. Refresh padding l = Inr l'"
proof (cases "scroller l")
  case None
  then show ?thesis by (simp add: Refresh_def)
next
  case (Some sc)
  with updateList_total[OF assms Some] show ?thesis by (simp add: Refresh_def)
qed

lemma Select_total:
  assumes ci: "CreateItem l"
  shows "\<exists>l'. Select padding ident l = Inr l'"
proof -
  define l1 where "l1 = l\<lparr>selected := [ident]\<rparr>"
  have "CreateItem l1" using ci by (simp add: l1_def)
  from scrollTo_total[OF this] obtain l2 where s: "scrollTo padding ident l1 = Inr l2" by blast
  have "CreateItem l2" using scrollTo_frame[OF s] \<open>CreateItem l1\<close> by (simp add: callbacks_def)
  from Refresh_total[OF this] obtain l3 where r: "Refresh padding l2 = Inr l3" by blast
  show ?thesis unfolding Select_def Let_def l1_def[symmetric] using s r by simp
qed

section \<open>The binary search\<close>

lemma sort_Search_same: "sort_Search f j j = j"
  by (subst sort_Search.simps) simp

lemma sort_Search_right:
  "i < j \<Longrightarrow> \<not> f ((i + j) div 2) \<Longrightarrow> sort_Search f i j = sort_Search f ((i + j) div 2 + 1) j"
  by (subst sort_Search.simps) (simp only: Let_def if_True not_False_eq_True)

lemma sort_Search_left:
  "i < j \<Longrightarrow> f ((i + j) div 2) \<Longrightarrow> sort_Search f i j = sort_Search f i ((i + j) div 2)"
  by (subst sort_Search.simps) (simp only: Let_def if_True not_True_eq_False if_False)

lemma sort_Search_correct:
  "(\<forall>a b. a \<le> b \<and> b < n \<and> f a \<longrightarrow> f b) \<Longrightarrow> i \<le> j \<Longrightarrow> j \<le> n \<Longrightarrow>
   (\<forall>k<i. \<not> f k) \<Longrightarrow> (\<forall>k. j \<le> k \<and> k < n \<longrightarrow> f k) \<Longrightarrow>
   i \<le> sort_Search f i j \<and> sort_Search f i j \<le> j \<and>
   (\<forall>k<sort_Search f i j. \<not> f k) \<and> (\<forall>k. sort_Search f i j \<le> k \<and> k < n \<longrightarrow> f k)"
proof (induction f i j rule: sort_Search.induct)
  case (1 f i j)
  note mono = "1.prems"(1)
  let ?h = "(i + j) div 2"
  show ?case
  proof (cases "i < j")
    case False
    with "1.prems"(2) have ij: "i = j" by simp
    show ?thesis unfolding ij sort_Search_same using "1.prems"(4,5) ij by blast
  next
    case True
    have hb: "i \<le> ?h" "?h < j" using True by simp_all
    have hn: "?h < n" using hb(2) "1.prems"(3) by simp
    show ?thesis
    proof (cases "f ?h")
      case False
      have low: "\<forall>k<?h + 1. \<not> f k"
      proof (intro allI impI)
        fix k assume "k < ?h + 1"
        then have "k \<le> ?h" by simp
        with False hn mono show "\<not> f k" by blast
      qed
      have le: "?h + 1 \<le> j" using hb(2) by simp
      note IH = "1.IH"(1)[OF True refl False mono le "1.prems"(3) low "1.prems"(5)]
      have "i \<le> sort_Search f (?h + 1) j" using IH hb(1) by linarith
      then show ?thesis unfolding sort_Search_right[of i j f, OF True False] using IH by blast
    next
      case fh: True
      have high: "\<forall>k. ?h \<le> k \<and> k < n \<longrightarrow> f k"
        using fh mono by blast
      have hn': "?h \<le> n" using hn by simp
      have nn: "\<not> \<not> f ?h" using fh by simp
      note IH = "1.IH"(2)[OF True refl nn mono hb(1) hn' "1.prems"(4) high]
      have "sort_Search f i ?h \<le> j" using IH hb(2) by linarith
      then show ?thesis unfolding sort_Search_left[of i j f, OF True fh] using IH by blast
    qed
  qed
qed


lemma searchVisible_Some_mem:
  assumes "searchVisible vis ident = Some c"
  shows "\<lparr>vis_item = c, vis_id = ident\<rparr> \<in> set vis"
proof -
  define idx where "idx = sort_Search (\<lambda>i. vis_id (vis ! i) \<ge> ident) 0 (length vis)"
  from assms have a: "idx < length vis" "vis_id (vis ! idx) = ident" "vis_item (vis ! idx) = c"
    unfolding searchVisible_def Let_def idx_def by (auto split: if_splits)
  then have "vis ! idx = \<lparr>vis_item = c, vis_id = ident\<rparr>" by simp
  with a(1) show ?thesis using nth_mem by metis
qed

lemma searchVisible_sorted:
  assumes s: "sorted_wrt (<) (map vis_id vis)" and v: "v \<in> set vis"
  shows "searchVisible vis (vis_id v) = Some (vis_item v)"
proof -
  define f where "f = (\<lambda>i. vis_id (vis ! i) \<ge> vis_id v)"
  define n where "n = length vis"
  define r where "r = sort_Search f 0 n"
  have nth_mono: "\<And>a b. a < b \<Longrightarrow> b < n \<Longrightarrow> vis_id (vis ! a) < vis_id (vis ! b)"
    using s by (simp add: sorted_wrt_iff_nth_less n_def)
  have mono: "\<forall>a b. a \<le> b \<and> b < n \<and> f a \<longrightarrow> f b"
  proof (intro allI impI)
    fix a b assume h: "a \<le> b \<and> b < n \<and> f a"
    show "f b"
    proof (cases "a = b")
      case True with h show ?thesis by simp
    next
      case False
      with h have "a < b" by simp
      from nth_mono[OF this] h show ?thesis by (simp add: f_def)
    qed
  qed
  have "0 \<le> n" "n \<le> n" "\<forall>k<0::nat. \<not> f k" "\<forall>k. n \<le> k \<and> k < n \<longrightarrow> f k"
    by auto
  from sort_Search_correct[OF mono this]
  have res: "r \<le> n \<and> (\<forall>k<r. \<not> f k) \<and> (\<forall>k. r \<le> k \<and> k < n \<longrightarrow> f k)"
    unfolding r_def by blast
  from v obtain k where k: "k < n" "vis ! k = v" by (auto simp: in_set_conv_nth n_def)
  then have fk: "f k" by (simp add: f_def)
  with res have rk: "r \<le> k" by (meson not_le)
  with k have rn: "r < n" by simp
  with res have "f r" by blast
  then have ge: "vis_id (vis ! r) \<ge> vis_id v" by (simp add: f_def)
  have "r = k"
  proof (rule ccontr)
    assume "r \<noteq> k"
    with rk have "r < k" by simp
    from nth_mono[OF this k(1)] k(2) ge show False by simp
  qed
  have "searchVisible vis (vis_id v) =
          (if r < n \<and> vis_id (vis ! r) = vis_id v then Some (vis_item (vis ! r)) else None)"
    unfolding searchVisible_def Let_def r_def f_def n_def by (rule refl)
  with \<open>r = k\<close> k show ?thesis by simp
qed

lemma searchVisible_None:
  assumes "sorted_wrt (<) (map vis_id vis)" "searchVisible vis ident = None"
  shows "ident \<notin> vis_id ` set vis"
  using assms searchVisible_sorted by fastforce

section \<open>The pool invariant\<close>

lemma handles_inj:
  "distinct (handles vs) \<Longrightarrow> v \<in> set vs \<Longrightarrow> w \<in> set vs \<Longrightarrow> vis_item v = vis_item w \<Longrightarrow> v = w"
  unfolding handles_def by (meson distinct_map inj_onD)

lemma laying_reuse:
  assumes lay: "laying l" and s: "searchVisible (wasVisible l) row = Some c"
    and fresh: "row \<notin> vis_id ` set (visible l)"
  shows "laying (l\<lparr>visible := visible l @ [\<lparr>vis_item = c, vis_id = row\<rparr>],
                   children := children l @ [c]\<rparr>)"
proof -
  let ?w = "\<lparr>vis_item = c, vis_id = row\<rparr>"
  have mem: "?w \<in> set (wasVisible l)" using s by (rule searchVisible_Some_mem)
  then have cW: "c \<in> set (handles (wasVisible l))" by (force simp: handles_def)
  have cV: "c \<notin> set (handles (visible l))"
  proof
    assume "c \<in> set (handles (visible l))"
    then obtain w where w: "w \<in> set (visible l)" "vis_item w = c" by (auto simp: handles_def)
    with lay cW have "w \<in> set (wasVisible l)" by (auto simp: laying_def)
    with handles_inj[of "wasVisible l" w ?w] lay mem w have "w = ?w" by (simp add: laying_def)
    with w(1) fresh show False by force
  qed
  have cP: "c \<notin> set (itemPool l)" using lay cW by (auto simp: laying_def)
  have cH: "c < length (heap l)" using lay cW by (auto simp: laying_def)
  show ?thesis using lay mem cV cP cH unfolding laying_def handles_def by auto
qed

lemma laying_new:
  assumes lay: "laying l" and s: "searchVisible (wasVisible l) row = None"
    and g: "getItem l = Inr (c, l1)"
  shows "laying (l1\<lparr>visible := visible l1 @ [\<lparr>vis_item = c, vis_id = row\<rparr>],
                    children := children l1 @ [c]\<rparr>) \<and>
         (\<exists>ext. heap l1 = heap l @ ext) \<and> set (itemPool l1) \<subseteq> set (itemPool l)"
proof (cases "itemPool l")
  case Nil
  with g have l1: "l1 = l\<lparr>heap := heap l @ [newListItem]\<rparr>" and c: "c = length (heap l)"
    by (auto simp: getItem_def split: if_splits)
  have "c \<notin> set (handles (wasVisible l)) \<union> set (handles (visible l)) \<union> set (itemPool l)"
    using lay c unfolding laying_def by blast
  then show ?thesis using lay s Nil unfolding l1 c laying_def handles_def
    by (auto simp: less_Suc_eq)
next
  case (Cons h rest)
  with g have l1: "l1 = l\<lparr>itemPool := rest\<rparr>" and c: "c = h"
    by (auto simp: getItem_def)
  have "h \<notin> set (handles (wasVisible l))" "h \<notin> set (handles (visible l))" "h \<notin> set rest"
    "distinct rest" "h < length (heap l)"
    using lay Cons unfolding laying_def by auto
  then show ?thesis using lay s Cons unfolding l1 c laying_def handles_def
    by auto
qed


lemma layoutRows_laying:
  "laying l \<Longrightarrow> \<forall>r \<in> vis_id ` set (visible l). r < int i + m \<Longrightarrow>
   layoutRows m i hs l = Inr l' \<Longrightarrow>
   laying l' \<and> (\<exists>ext. heap l' = heap l @ ext) \<and> set (itemPool l') \<subseteq> set (itemPool l)"
proof (induction hs arbitrary: i l)
  case Nil
  then show ?case by simp
next
  case (Cons h hs)
  let ?row = "int i + m"
  have fresh: "?row \<notin> vis_id ` set (visible l)" using Cons.prems(2) by auto
  show ?case
  proof (cases "searchVisible (wasVisible l) ?row")
    case (Some c)
    let ?l = "l\<lparr>visible := visible l @ [\<lparr>vis_item = c, vis_id = ?row\<rparr>],
                  children := children l @ [c]\<rparr>"
    from Cons.prems(3) Some have r: "layoutRows m (i + 1) hs ?l = Inr l'"
      by (simp add: Let_def)
    have a: "laying ?l" using laying_reuse[OF Cons.prems(1) Some fresh] .
    have b: "\<forall>r \<in> vis_id ` set (visible ?l). r < int (i + 1) + m"
      using Cons.prems(2) by auto
    from Cons.IH[OF a b r] show ?thesis by simp
  next
    case None
    with Cons.prems(3) obtain c l1 where g: "getItem l = Inr (c, l1)"
      and r: "layoutRows m (i + 1) hs (l1\<lparr>visible := visible l1 @ [\<lparr>vis_item = c, vis_id = ?row\<rparr>],
                        children := children l1 @ [c]\<rparr>) = Inr l'"
      by (auto simp: Let_def split: sum.splits)
    let ?l = "l1\<lparr>visible := visible l1 @ [\<lparr>vis_item = c, vis_id = ?row\<rparr>],
                        children := children l1 @ [c]\<rparr>"
    note n = laying_new[OF Cons.prems(1) None g]
    have v1: "visible l1 = visible l" using getItem_frame[OF g] by simp
    have b: "\<forall>r \<in> vis_id ` set (visible ?l). r < int (i + 1) + m"
      using Cons.prems(2) v1 by auto
    from Cons.IH[OF conjunct1[OF n] b r] n show ?thesis by auto
  qed
qed

lemma releaseItems_pool:
  "itemPool (releaseItems ws l) =
     rev (handles (filter (\<lambda>w. searchVisible (visible l) (vis_id w) = None) ws)) @ itemPool l"
proof (induction ws arbitrary: l)
  case Nil
  then show ?case by (simp add: handles_def)
next
  case (Cons w ws)
  show ?case
  proof (cases "searchVisible (visible l) (vis_id w)")
    case None
    then show ?thesis using Cons.IH[of "l\<lparr>itemPool := vis_item w # itemPool l\<rparr>"]
      by (simp add: handles_def)
  next
    case (Some c)
    then show ?thesis using Cons.IH[of l] by (simp add: handles_def)
  qed
qed

lemma setupListItem_heap:
  "h \<noteq> c \<Longrightarrow> heap (setupListItem c i f l) ! h = heap l ! h"
  "c < length (heap l) \<Longrightarrow> bound (setupListItem c i f l) \<lparr>vis_item = c, vis_id = i\<rparr>"
  by (simp_all add: setupListItem_def Let_def bound_def)

lemma setupItems_heap_other:
  "h \<notin> set (handles vs) \<Longrightarrow> heap (setupItems b vs l) ! h = heap l ! h"
proof (induction vs arbitrary: l)
  case Nil
  then show ?case by simp
next
  case (Cons v vs)
  then have hv: "h \<noteq> vis_item v" and hvs: "h \<notin> set (handles vs)" by (auto simp: handles_def)
  show ?case
  proof (cases "b \<and> searchVisible (wasVisible l) (vis_id v) \<noteq> None")
    case True
    then have "setupItems b (v # vs) l = setupItems b vs l" by simp
    then show ?thesis using Cons.IH[OF hvs, of l] by simp
  next
    case False
    define l1 where "l1 = setupListItem (vis_item v) (vis_id v) (focused l \<and> currentFocus l = vis_id v) l"
    from False have "setupItems b (v # vs) l = setupItems b vs l1" by (auto simp: l1_def)
    then show ?thesis using Cons.IH[OF hvs, of l1] setupListItem_heap(1)[OF hv] by (simp add: l1_def)
  qed
qed

lemma setupItems_bound:
  "distinct (handles vs) \<Longrightarrow> \<forall>w\<in>set vs. vis_item w < length (heap l) \<Longrightarrow> w \<in> set vs \<Longrightarrow>
   (if b \<and> searchVisible (wasVisible l) (vis_id w) \<noteq> None
    then heap (setupItems b vs l) ! vis_item w = heap l ! vis_item w
    else bound (setupItems b vs l) w)"
proof (induction vs arbitrary: l)
  case Nil
  then show ?case by simp
next
  case (Cons v vs)
  from Cons.prems(1) have d: "distinct (handles vs)" and nv: "vis_item v \<notin> set (handles vs)"
    by (simp_all add: handles_def)
  define l1 where "l1 = (if b \<and> searchVisible (wasVisible l) (vis_id v) \<noteq> None then l
     else setupListItem (vis_item v) (vis_id v) (focused l \<and> currentFocus l = vis_id v) l)"
  have st: "setupItems b (v # vs) l = setupItems b vs l1" by (simp add: l1_def)
  have w1: "wasVisible l1 = wasVisible l" and len1: "length (heap l1) = length (heap l)"
    using setupListItem_frame[of "vis_item v" "vis_id v" "focused l \<and> currentFocus l = vis_id v" l]
    by (simp_all add: l1_def)
  have lt: "\<forall>w\<in>set vs. vis_item w < length (heap l1)" using Cons.prems(2) len1 by simp
  show ?case unfolding st
  proof (cases "w = v")
    case True
    have keep: "heap (setupItems b vs l1) ! vis_item v = heap l1 ! vis_item v"
      using setupItems_heap_other[OF nv] .
    show "if b \<and> searchVisible (wasVisible l) (vis_id w) \<noteq> None
          then heap (setupItems b vs l1) ! vis_item w = heap l ! vis_item w
          else bound (setupItems b vs l1) w"
    proof (cases "b \<and> searchVisible (wasVisible l) (vis_id v) \<noteq> None")
      case c: True
      then have "l1 = l" by (auto simp: l1_def)
      with keep have "heap (setupItems b vs l1) ! vis_item v = heap l ! vis_item v" by simp
      then show ?thesis unfolding True using c by auto
    next
      case c: False
      have "vis_item v < length (heap l)" using Cons.prems(2) by simp
      then have "bound (setupListItem (vis_item v) (vis_id v) (focused l \<and> currentFocus l = vis_id v) l)
                   \<lparr>vis_item = vis_item v, vis_id = vis_id v\<rparr>"
        by (rule setupListItem_heap(2))
      moreover have "l1 = setupListItem (vis_item v) (vis_id v) (focused l \<and> currentFocus l = vis_id v) l"
        using c by (auto simp: l1_def)
      ultimately have "bound l1 v" by (simp add: bound_def)
      with keep have "bound (setupItems b vs l1) v" by (simp add: bound_def)
      then show ?thesis unfolding True using c by auto
    qed
  next
    case False
    with Cons.prems(3) have wvs: "w \<in> set vs" by simp
    then have "vis_item w \<in> set (handles vs)" by (simp add: handles_def)
    with nv have "vis_item w \<noteq> vis_item v" by metis
    then have same: "heap l1 ! vis_item w = heap l ! vis_item w"
      unfolding l1_def using setupListItem_heap(1) by (simp split: if_splits)
    from Cons.IH[OF d lt wvs] show "if b \<and> searchVisible (wasVisible l) (vis_id w) \<noteq> None
          then heap (setupItems b vs l1) ! vis_item w = heap l ! vis_item w
          else bound (setupItems b vs l1) w"
      unfolding w1 same .
  qed
qed

lemma layoutRows_reuse:
  "layoutRows m i hs l = Inr l' \<Longrightarrow> w \<in> set (visible l') \<Longrightarrow>
   w \<in> set (visible l) \<or>
   (\<forall>c. searchVisible (wasVisible l) (vis_id w) = Some c \<longrightarrow> vis_item w = c)"
proof (induction hs arbitrary: i l)
  case Nil
  then show ?case by simp
next
  case (Cons h hs)
  let ?row = "int i + m"
  show ?case
  proof (cases "searchVisible (wasVisible l) ?row")
    case (Some c)
    let ?l = "l\<lparr>visible := visible l @ [\<lparr>vis_item = c, vis_id = ?row\<rparr>],
                  children := children l @ [c]\<rparr>"
    from Cons.prems(1) Some have r: "layoutRows m (i + 1) hs ?l = Inr l'"
      by (simp add: Let_def)
    from Cons.IH[OF r Cons.prems(2)] Some show ?thesis by auto
  next
    case None
    with Cons.prems(1) obtain c l1 where g: "getItem l = Inr (c, l1)"
      and r: "layoutRows m (i + 1) hs (l1\<lparr>visible := visible l1 @ [\<lparr>vis_item = c, vis_id = ?row\<rparr>],
                        children := children l1 @ [c]\<rparr>) = Inr l'"
      by (auto simp: Let_def split: sum.splits)
    have f: "visible l1 = visible l" "wasVisible l1 = wasVisible l" using getItem_frame[OF g] by simp_all
    from Cons.IH[OF r Cons.prems(2)] None f show ?thesis by auto
  qed
qed

lemma wellFormed_laying:
  assumes "wellFormed l"
  shows "laying ((beginPass l)\<lparr>visibleRowHeights := hs, children := []\<rparr>)"
  using assms unfolding wellFormed_def laying_def handles_def
  by (auto simp: beginPass_fields)


lemma wellFormed_early:
  assumes "wellFormed l"
  shows "wellFormed ((beginPass l)\<lparr>visibleRowHeights := hs\<rparr>)"
  using assms unfolding wellFormed_def handles_def bound_def
  by (simp add: beginPass_fields)

lemma released_subset:
  "set (handles (filter P ws)) \<subseteq> set (handles ws)"
  by (auto simp: handles_def)

lemma released_distinct:
  "distinct (handles ws) \<Longrightarrow> distinct (handles (filter P ws))"
  unfolding handles_def by (rule distinct_map_filter)

lemma endPass_after_laying:
  assumes lay: "laying l4"
    and srt: "sorted_wrt (<) (map vis_id (visible l4))"
  shows "distinct (handles (visible (endPass b l4)) @ itemPool (endPass b l4))"
    and "\<forall>h \<in> set (handles (visible (endPass b l4)) @ itemPool (endPass b l4)).
           h < length (heap (endPass b l4))"
    and "set (itemPool (endPass b l4)) \<subseteq> set (handles (wasVisible l4)) \<union> set (itemPool l4)"
    and "\<forall>h \<in> set (itemPool (endPass b l4)). heap (endPass b l4) ! h = heap l4 ! h"
    and "\<forall>w \<in> set (visible l4).
           (if b \<and> searchVisible (wasVisible l4) (vis_id w) \<noteq> None
            then heap (endPass b l4) ! vis_item w = heap l4 ! vis_item w
            else bound (endPass b l4) w)"
proof -
  define W where "W = wasVisible l4"
  define V where "V = visible l4"
  define l5 where "l5 = releaseItems W l4"
  define R where "R = handles (filter (\<lambda>w. searchVisible V (vis_id w) = None) W)"
  have l5: "visible l5 = V" "wasVisible l5 = W" "heap l5 = heap l4"
    "itemPool l5 = rev R @ itemPool l4"
    unfolding l5_def R_def V_def by (simp_all add: releaseItems_frame releaseItems_pool W_def)
  have e: "endPass b l4 = (setupItems b V l5)\<lparr>wasVisible := []\<rparr>"
    unfolding endPass_def l5_def[symmetric, unfolded W_def] using l5(1) by (simp add: l5_def W_def)
  have ev: "visible (endPass b l4) = V" and ep: "itemPool (endPass b l4) = rev R @ itemPool l4"
    and eh: "heap (endPass b l4) = heap (setupItems b V l5)"
    and el: "length (heap (endPass b l4)) = length (heap l4)"
    unfolding e using setupItems_frame[of b V l5] l5 by simp_all
  have dV: "distinct (handles V)" and dW: "distinct (handles W)" and dP: "distinct (itemPool l4)"
    and PW: "set (itemPool l4) \<inter> set (handles W) = {}"
    and PV: "set (itemPool l4) \<inter> set (handles V) = {}"
    and lt: "\<forall>h \<in> set (handles W) \<union> set (handles V) \<union> set (itemPool l4). h < length (heap l4)"
    and org: "\<forall>w \<in> set V. w \<in> set W \<or>
         (vis_item w \<notin> set (handles W) \<and> searchVisible W (vis_id w) = None)"
    using lay unfolding laying_def V_def W_def by blast+
  have RW: "set R \<subseteq> set (handles W)" unfolding R_def by (rule released_subset)
  have dR: "distinct R" unfolding R_def using dW by (rule released_distinct)
  have VR: "set (handles V) \<inter> set R = {}"
  proof (rule ccontr)
    assume "set (handles V) \<inter> set R \<noteq> {}"
    then obtain h where hV: "h \<in> set (handles V)" and hR: "h \<in> set R" by blast
    from hV obtain w' where w': "w' \<in> set V" "vis_item w' = h" by (auto simp: handles_def)
    from hR obtain w where w: "w \<in> set W" "vis_item w = h" "searchVisible V (vis_id w) = None"
      by (auto simp: R_def handles_def)
    from hR RW have "h \<in> set (handles W)" by blast
    with org w' have "w' \<in> set W" by blast
    from handles_inj[OF dW this w(1)] w' w have "w' = w" by simp
    moreover have "searchVisible V (vis_id w') = Some (vis_item w')"
      using searchVisible_sorted[of V w'] srt w'(1) by (simp add: V_def)
    ultimately show False using w(3) by simp
  qed
  show "distinct (handles (visible (endPass b l4)) @ itemPool (endPass b l4))"
    unfolding ev ep using dV dR dP PW PV VR RW by auto
  show "\<forall>h \<in> set (handles (visible (endPass b l4)) @ itemPool (endPass b l4)).
           h < length (heap (endPass b l4))"
    unfolding ev ep el using lt RW by auto
  show "set (itemPool (endPass b l4)) \<subseteq> set (handles (wasVisible l4)) \<union> set (itemPool l4)"
    unfolding ep using RW by (auto simp: W_def)
  show "\<forall>h \<in> set (itemPool (endPass b l4)). heap (endPass b l4) ! h = heap l4 ! h"
  proof
    fix h assume "h \<in> set (itemPool (endPass b l4))"
    then have "h \<in> set R \<or> h \<in> set (itemPool l4)" unfolding ep by auto
    with VR PV have "h \<notin> set (handles V)" by blast
    from setupItems_heap_other[OF this, of b l5] show "heap (endPass b l4) ! h = heap l4 ! h"
      unfolding eh l5(3) .
  qed
  show "\<forall>w \<in> set (visible l4).
           (if b \<and> searchVisible (wasVisible l4) (vis_id w) \<noteq> None
            then heap (endPass b l4) ! vis_item w = heap l4 ! vis_item w
            else bound (endPass b l4) w)"
  proof
    fix w assume "w \<in> set (visible l4)"
    then have wV: "w \<in> set V" by (simp add: V_def)
    have lt5: "\<forall>w\<in>set V. vis_item w < length (heap l5)"
      using lt unfolding l5(3) by (auto simp: handles_def)
    have bd: "bound (endPass b l4) w = bound (setupItems b V l5) w"
      unfolding bound_def eh ..
    from setupItems_bound[OF dV lt5 wV, of b]
    show "if b \<and> searchVisible (wasVisible l4) (vis_id w) \<noteq> None
            then heap (endPass b l4) ! vis_item w = heap l4 ! vis_item w
            else bound (endPass b l4) w"
      unfolding bd eh l5(2,3) W_def .
  qed
qed


lemma updateList_wellFormed:
  assumes wf: "wellFormed l" and u: "updateList padding newOnly l = Inr l'"
  shows "wellFormed l' \<and> (\<forall>h \<in> set (itemPool l'). h < length (heap l) \<and> heap l' ! h = heap l ! h)"
  using u
proof (cases rule: updateList_cases)
  case (early offY minRow)
  have "wellFormed l'" unfolding early(3) using wf by (rule wellFormed_early)
  moreover have "\<forall>h \<in> set (itemPool l'). h < length (heap l) \<and> heap l' ! h = heap l ! h"
    unfolding early(3) using wf by (simp add: beginPass_fields wellFormed_def)
  ultimately show ?thesis ..
next
  case (full offY minRow hs l4)
  let ?l3 = "(beginPass l)\<lparr>visibleRowHeights := hs, children := []\<rparr>"
  have l3: "wasVisible ?l3 = wasVisible l @ visible l" "visible ?l3 = []"
    "heap ?l3 = heap l" "itemPool ?l3 = itemPool l"
    by (simp_all add: beginPass_fields)
  have lay3: "laying ?l3" using wf by (rule wellFormed_laying)
  have "\<forall>r \<in> vis_id ` set (visible ?l3). r < int 0 + minRow" by (simp add: l3)
  from layoutRows_laying[OF lay3 this full(3)] obtain ext where
    lay4: "laying l4" and ext: "heap l4 = heap l @ ext" and pool4: "set (itemPool l4) \<subseteq> set (itemPool l)"
    unfolding l3 by blast
  have W4: "wasVisible l4 = wasVisible l @ visible l"
    using layoutRows_frame[OF full(3)] l3 by simp
  have "map vis_id (visible l4) = map (\<lambda>k. int k + minRow) [0..<0 + length hs]"
    using layoutRows_visible_ids[OF full(3)] l3 by simp
  then have srt: "sorted_wrt (<) (map vis_id (visible l4))" by (simp add: sorted_rows)
  note E = endPass_after_laying[OF lay4 srt, of newOnly, folded full(4)]
  have vis: "visible l' = visible l4" "wasVisible l' = []"
    unfolding full(4) by (simp_all add: endPass_fields)
  have old: "\<And>h. h < length (heap l) \<Longrightarrow> heap l4 ! h = heap l ! h"
    unfolding ext by (simp add: nth_append)
  have ltW: "\<forall>h \<in> set (handles (wasVisible l @ visible l) @ itemPool l). h < length (heap l)"
    using wf unfolding wellFormed_def by blast
  have pool: "\<forall>h \<in> set (itemPool l'). h < length (heap l) \<and> heap l' ! h = heap l ! h"
  proof
    fix h assume h: "h \<in> set (itemPool l')"
    with E(3) have "h \<in> set (handles (wasVisible l @ visible l)) \<or> h \<in> set (itemPool l4)"
      unfolding W4 by blast
    with pool4 have "h \<in> set (handles (wasVisible l @ visible l) @ itemPool l)" by auto
    with ltW have lt: "h < length (heap l)" by blast
    from bspec[OF E(4) h] old[OF lt] have "heap l' ! h = heap l ! h" by (rule trans)
    with lt show "h < length (heap l) \<and> heap l' ! h = heap l ! h" ..
  qed
  have bnd: "\<forall>w \<in> set (visible l'). bound l' w"
  proof
    fix w assume "w \<in> set (visible l')"
    then have w4: "w \<in> set (visible l4)" unfolding vis .
    show "bound l' w"
    proof (cases "newOnly \<and> searchVisible (wasVisible l4) (vis_id w) \<noteq> None")
      case False
      from bspec[OF E(5) w4] show ?thesis unfolding if_not_P[OF False] .
    next
      case True
      from bspec[OF E(5) w4] have same: "heap l' ! vis_item w = heap l4 ! vis_item w"
        unfolding if_P[OF True] .
      have "\<forall>w \<in> set (visible l4). w \<in> set (wasVisible l4) \<or>
         (vis_item w \<notin> set (handles (wasVisible l4)) \<and>
          searchVisible (wasVisible l4) (vis_id w) = None)"
        using lay4 unfolding laying_def by (elim conjE)
      from bspec[OF this w4] True have "w \<in> set (wasVisible l4)" by fastforce
      then have wW: "w \<in> set (wasVisible l @ visible l)" unfolding W4 .
      then have b0: "bound l w" using wf unfolding wellFormed_def by blast
      from wW have "vis_item w \<in> set (handles (wasVisible l @ visible l) @ itemPool l)"
        by (auto simp: handles_def)
      with ltW have "vis_item w < length (heap l)" by blast
      from old[OF this] same have "heap l' ! vis_item w = heap l ! vis_item w" by (rule trans[rotated])
      with b0 show ?thesis unfolding bound_def by simp
    qed
  qed
  have "wellFormed l'"
    unfolding wellFormed_def vis using srt E(1) E(2) bnd unfolding vis by simp
  then show ?thesis using pool ..
qed

section \<open>Scroll offsets and the height table\<close>

lemma updateList_offsetY:
  "updateList padding newOnly l = Inr l' \<Longrightarrow> offsetY l' = offsetY l \<and> scroller l' = scroller l"
  using updateList_widget[of padding newOnly l l'] widget_fields(8,12) by metis

lemma offsetUpdated_offsetY:
  assumes "offsetUpdated padding y l = Inr l'"
  shows "offsetY l' = y \<and> scroller l' = scroller l"
proof (cases "offsetY l = y")
  case True
  with assms show ?thesis by (simp add: offsetUpdated_def)
next
  case False
  with assms have "updateList padding True (l\<lparr>offsetY := y\<rparr>) = Inr l'"
    by (simp add: offsetUpdated_def)
  from updateList_offsetY[OF this] show ?thesis by simp
qed







text \<open>
  What \<^verbatim>\<open>ScrollToOffset\<close> asks of the scroll container, whatever container it is.
\<close>

lemma ScrollToOffset_request:
  assumes sc: "scroller l = Some sc"
  shows "(list_Height l \<ge> contentMinSize_Height padding l \<longrightarrow>
            ScrollToOffset padding scrollerTo offset l = Inr l) \<and>
         (list_Height l < contentMinSize_Height padding l \<longrightarrow>
            (\<forall>l'. ScrollToOffset padding scrollerTo offset l = Inr l' \<longrightarrow>
               scroller l' = Some (scrollerTo sc (min (max 0 offset) (contentMinSize_Height padding l))) \<and>
               offsetY l' = Offset_Y (scrollerTo sc (min (max 0 offset) (contentMinSize_Height padding l)))))"
proof (intro conjI impI allI)
  assume "list_Height l \<ge> contentMinSize_Height padding l"
  with sc show "ScrollToOffset padding scrollerTo offset l = Inr l"
    by (simp add: ScrollToOffset_def Let_def)
next
  fix l'
  let ?C = "contentMinSize_Height padding l"
  let ?y = "min (max 0 offset) ?C"
  assume lt: "list_Height l < ?C" and run: "ScrollToOffset padding scrollerTo offset l = Inr l'"
  have cl: "(if (if offset < 0 then 0 else offset) > ?C then ?C else (if offset < 0 then 0 else offset)) = ?y"
    by (simp add: min_def max_def)
  from run sc lt have "offsetUpdated padding (Offset_Y (scrollerTo sc ?y)) (l\<lparr>scroller := Some (scrollerTo sc ?y)\<rparr>) = Inr l'"
    unfolding ScrollToOffset_def Let_def cl by simp
  from offsetUpdated_offsetY[OF this]
  show "scroller l' = Some (scrollerTo sc ?y)" "offsetY l' = Offset_Y (scrollerTo sc ?y)" by simp_all
qed



text \<open>
  \<^verbatim>\<open>scrollTo\<close> on a list without height overrides: the test and the assignment use the
  same row height, and an offset within the scroll range stays within it.
\<close>

lemma scrollTo_uniform_in_range:
  assumes u: "itemHeights l = []" and sc: "scroller l = Some sc" and len: "Length l = Some items"
    and id: "0 \<le> ident" "ident < items"
    and nn: "0 \<le> padding" "0 \<le> itemMin_Height l"
    and off: "0 \<le> Offset_Y sc"
      "Offset_Y sc \<le> max 0 (contentMinSize_Height padding l - Size_Height sc)"
    and run: "scrollTo padding ident l = Inr l'"
  shows "0 \<le> offsetY l' \<and> offsetY l' \<le> max 0 (contentMinSize_Height padding l - Size_Height sc)"
proof -
  define h where "h = itemMin_Height l"
  define y where "y = of_int ident * h + of_int ident * padding"
  define C where "C = contentMinSize_Height padding l"
  define sc1 where "sc1 = (if y < Offset_Y sc then sc\<lparr>Offset_Y := y\<rparr>
                      else if y + h > Offset_Y sc + Size_Height sc
                      then sc\<lparr>Offset_Y := y + h - Size_Height sc\<rparr>
                      else sc)"
  have Cv: "C = (h + padding) * of_int items - padding"
    using u len by (simp add: C_def contentMinSize_Height_def h_def)
  have y0: "0 \<le> y" using id(1) nn by (simp add: y_def h_def)
  have "of_int ident \<le> (of_int items - 1 :: real)" using id(2) by linarith
  then have "of_int ident * (h + padding) \<le> (of_int items - 1) * (h + padding)"
    using nn by (intro mult_right_mono) (simp_all add: h_def)
  then have yC: "y + h \<le> C" unfolding Cv y_def by (simp add: algebra_simps)
  have b: "0 \<le> Offset_Y sc1 \<and> Offset_Y sc1 \<le> max 0 (C - Size_Height sc)"
    unfolding sc1_def using y0 yC off by (auto simp: C_def)
  have "scrollTo padding ident l = offsetUpdated padding (Offset_Y sc1) (l\<lparr>scroller := Some sc1\<rparr>)"
    using sc u by (simp add: scrollTo_def Let_def sc1_def y_def h_def)
  with run have "offsetUpdated padding (Offset_Y sc1) (l\<lparr>scroller := Some sc1\<rparr>) = Inr l'"
    by simp
  from offsetUpdated_offsetY[OF this] b show ?thesis by (simp add: C_def)
qed











section \<open>Every operation keeps the pool invariant\<close>

text \<open>
  A new list is well formed, and so is every state that the operations of the widget
  return from a well-formed one.
\<close>

lemma wellFormed_newList: "wellFormed (newList items itemHeight viewH offs hts)"
  by (simp add: wellFormed_def newList_def handles_def)

lemma wellFormed_cong:
  assumes "wasVisible l' = wasVisible l" "visible l' = visible l" "itemPool l' = itemPool l"
    "heap l' = heap l"
  shows "wellFormed l' = wellFormed l"
  unfolding wellFormed_def bound_def using assms by simp

lemma offsetUpdated_wellFormed:
  assumes "wellFormed l" "offsetUpdated padding y l = Inr l'"
  shows "wellFormed l'"
proof (cases "offsetY l = y")
  case True
  with assms show ?thesis by (simp add: offsetUpdated_def)
next
  case False
  with assms(2) have u: "updateList padding True (l\<lparr>offsetY := y\<rparr>) = Inr l'"
    by (simp add: offsetUpdated_def)
  have "wellFormed (l\<lparr>offsetY := y\<rparr>)" using assms(1) wellFormed_cong[of "l\<lparr>offsetY := y\<rparr>" l] by simp
  from updateList_wellFormed[OF this u] show ?thesis ..
qed

lemma scrollTo_wellFormed:
  assumes "wellFormed l" "scrollTo padding ident l = Inr l'"
  shows "wellFormed l'"
proof (cases "scroller l")
  case None
  with assms show ?thesis by (simp add: scrollTo_def)
next
  case (Some sc)
  with assms(2) obtain sc1 where o: "offsetUpdated padding (Offset_Y sc1) (l\<lparr>scroller := Some sc1\<rparr>) = Inr l'"
    by (simp add: scrollTo_def Let_def)
  have "wellFormed (l\<lparr>scroller := Some sc1\<rparr>)"
    using assms(1) wellFormed_cong[of "l\<lparr>scroller := Some sc1\<rparr>" l] by simp
  from offsetUpdated_wellFormed[OF this o] show ?thesis .
qed

lemma Refresh_wellFormed:
  assumes "wellFormed l" "Refresh padding l = Inr l'"
  shows "wellFormed l'"
proof (cases "scroller l")
  case None
  with assms show ?thesis by (simp add: Refresh_def)
next
  case (Some sc)
  with assms(2) have "updateList padding False l = Inr l'" by (simp add: Refresh_def)
  from updateList_wellFormed[OF assms(1) this] show ?thesis ..
qed


lemma Select_wellFormed:
  assumes w: "wellFormed l" and run: "Select padding ident l = Inr l'"
  shows "wellFormed l'"
proof (cases "(selected l \<noteq> [] \<and> ident = hd (selected l)) \<or> ident < 0 \<or> ident \<ge> listLen l")
  case True
  then have "Select padding ident l = Inr l"
    by (auto simp: Select_def Let_def listLen_def)
  with run w show ?thesis by simp
next
  case False
  define l1 where "l1 = l\<lparr>selected := [ident]\<rparr>"
  have w1: "wellFormed l1" using w wellFormed_cong[of l1 l] by (simp add: l1_def)
  from False have n: "\<not> (selected l \<noteq> [] \<and> ident = hd (selected l))" "\<not> ident < 0"
    "\<not> ident \<ge> (case Length l of Some n \<Rightarrow> n | None \<Rightarrow> 0)"
    by (simp_all add: listLen_def)
  from run n obtain l2 l3 where
    s: "scrollTo padding ident l1 = Inr l2" and r: "Refresh padding l2 = Inr l3" and
    l': "l' = (let l4 = (if OnUnselected l3 \<and> selected l \<noteq> []
                         then l3\<lparr>trace := trace l3 @ [OnUnselectedCall (hd (selected l))]\<rparr>
                         else l3);
                   l5 = (if OnSelected l4
                         then l4\<lparr>trace := trace l4 @ [OnSelectedCall ident]\<rparr>
                         else l4)
               in l5)"
    unfolding Select_def l1_def Let_def
    by (auto split: sum.splits if_splits)
  have w3: "wellFormed l3" using Refresh_wellFormed[OF scrollTo_wellFormed[OF w1 s] r] .
  have "wasVisible l' = wasVisible l3 \<and> visible l' = visible l3 \<and>
         itemPool l' = itemPool l3 \<and> heap l' = heap l3"
    unfolding l' by (simp add: Let_def)
  with w3 show ?thesis using wellFormed_cong[of l' l3] by simp
qed

lemma ScrollTo_wellFormed:
  assumes w: "wellFormed l" and run: "ScrollTo padding ident l = Inr l'"
  shows "wellFormed l'"
proof (cases "ident < 0 \<or> ident \<ge> listLen l")
  case True
  then have "ScrollTo padding ident l = Inr l"
    by (auto simp: ScrollTo_def Let_def listLen_def)
  with run w show ?thesis by simp
next
  case False
  with run obtain l1 where
    s: "scrollTo padding ident l = Inr l1" and r: "Refresh padding l1 = Inr l'"
    unfolding ScrollTo_def Let_def listLen_def
    by (auto split: sum.splits if_splits)
  from Refresh_wellFormed[OF scrollTo_wellFormed[OF w s] r] show ?thesis .
qed

lemma ScrollToOffset_wellFormed:
  assumes w: "wellFormed l" and run: "ScrollToOffset padding scrollerTo offset l = Inr l'"
  shows "wellFormed l'"
proof (cases "scroller l")
  case None
  with run w show ?thesis by (simp add: ScrollToOffset_def)
next
  case (Some sc)
  show ?thesis
  proof (cases "list_Height l \<ge> contentMinSize_Height padding l")
    case True
    with run w Some show ?thesis by (simp add: ScrollToOffset_def Let_def)
  next
    case False
    with run Some obtain sc1 where
      o: "offsetUpdated padding (Offset_Y sc1) (l\<lparr>scroller := Some sc1\<rparr>) = Inr l'"
      by (simp add: ScrollToOffset_def Let_def)
    have "wellFormed (l\<lparr>scroller := Some sc1\<rparr>)"
      using w wellFormed_cong[of "l\<lparr>scroller := Some sc1\<rparr>" l] by simp
    from offsetUpdated_wellFormed[OF this o] show ?thesis .
  qed
qed


lemma setupListItem_wellFormed:
  assumes w: "wellFormed l" and m: "\<lparr>vis_item = c, vis_id = i\<rparr> \<in> set (wasVisible l @ visible l)"
  shows "wellFormed (setupListItem c i f l)"
proof -
  let ?l = "setupListItem c i f l"
  let ?U = "wasVisible l @ visible l"
  have fr: "wasVisible ?l = wasVisible l" "visible ?l = visible l" "itemPool ?l = itemPool l"
    "length (heap ?l) = length (heap l)"
    using setupListItem_frame[of c i f l] by simp_all
  have d: "distinct (handles ?U)" using w unfolding wellFormed_def by simp
  have c: "c < length (heap l)"
  proof -
    from m have "c \<in> set (handles ?U @ itemPool l)" by (force simp: handles_def)
    with w show ?thesis unfolding wellFormed_def by blast
  qed
  have "\<forall>v \<in> set ?U. bound ?l v"
  proof
    fix v assume v: "v \<in> set ?U"
    show "bound ?l v"
    proof (cases "vis_item v = c")
      case True
      from handles_inj[OF d v m] True have "v = \<lparr>vis_item = c, vis_id = i\<rparr>" by simp
      with setupListItem_heap(2)[OF c, of i f] show ?thesis by simp
    next
      case False
      from setupListItem_heap(1)[OF False, of i f l] have "heap ?l ! vis_item v = heap l ! vis_item v" .
      moreover have "bound l v" using w v unfolding wellFormed_def by blast
      ultimately show ?thesis unfolding bound_def by simp
    qed
  qed
  with w show ?thesis unfolding wellFormed_def fr by simp
qed

lemma RefreshItem_wellFormed:
  assumes w: "wellFormed l" and run: "RefreshItem padding ident l = Inr l'"
  shows "wellFormed l'"
proof (cases "scroller l")
  case None
  with run w show ?thesis by (simp add: RefreshItem_def)
next
  case (Some sc)
  with run obtain l1 where r: "Refresh padding l = Inr l1"
    and l': "l' = (case searchVisible (visible l1) ident of
                     Some it \<Rightarrow> setupListItem it ident (focused l1 \<and> currentFocus l1 = ident) l1
                   | None \<Rightarrow> l1)"
    by (auto simp: RefreshItem_def split: sum.splits option.splits)
  have w1: "wellFormed l1" using Refresh_wellFormed[OF w r] .
  show ?thesis
  proof (cases "searchVisible (visible l1) ident")
    case None
    with l' w1 show ?thesis by simp
  next
    case (Some it)
    from searchVisible_Some_mem[OF Some]
    have "\<lparr>vis_item = it, vis_id = ident\<rparr> \<in> set (wasVisible l1 @ visible l1)" by simp
    from setupListItem_wellFormed[OF w1 this] l' Some show ?thesis by simp
  qed
qed

lemma SetItemHeight_wellFormed:
  assumes w: "wellFormed l" and run: "SetItemHeight padding ident height l = Inr l'"
  shows "wellFormed l'"
proof -
  let ?l1 = "l\<lparr>itemHeights := AList.update ident height (itemHeights l)\<rparr>"
  have w1: "wellFormed ?l1" using w wellFormed_cong[of ?l1 l] by simp
  from run have "l' = ?l1 \<or> RefreshItem padding ident ?l1 = Inr l'"
    by (auto simp: SetItemHeight_def Let_def split: if_splits)
  with w1 RefreshItem_wellFormed[OF w1] show ?thesis by blast
qed

section \<open>The visible range\<close>

text \<open>
  C1, as amended. A list of 1000 items of uniform height 30 in a viewport of height 300,
  with no padding between the rows. At scroll offset 0 the computation returns
  \<open>minRow = 0\<close> and eleven row heights, the rows \<open>[0, 11)\<close>: the upper bound
  \<open>\<lceil>(offY + 300) / 30\<rceil> = 10\<close> is an inclusive row index. At scroll offset 315 it
  returns \<open>minRow = 10\<close> and eleven row heights, the rows \<open>[10, 21)\<close>.
\<close>

theorem visible_range_scenario:
  "calculateVisibleRowHeights 30 1000 0 (newList 1000 30 300 0 []) = Inr (0, 0, replicate 11 30) \<and>
   calculateVisibleRowHeights 30 1000 0 (newList 1000 30 300 315 []) = Inr (300, 10, replicate 11 30)"
  by (simp add: calculateVisibleRowHeights_def newList_def)

text \<open>
  C1, as stated, fails at offset 0: the rows returned there are not \<open>[0, 10)\<close>.
\<close>

theorem visible_range_scenario_counterexample:
  "calculateVisibleRowHeights 30 1000 0 (newList 1000 30 300 0 []) \<noteq> Inr (0, 0, replicate 10 30)"
  by (simp add: calculateVisibleRowHeights_def newList_def)

text \<open>
  No padding makes both ranges of the scenario come out as stated: ten rows from row 0
  need a padded row height above 33, eleven rows from row 10 one below 32.
\<close>

lemma scenario_fits_no_padding:
  assumes pad: "0 \<le> padding"
  shows "\<not> (calculateVisibleRowHeights 30 1000 padding (newList 1000 30 300 0 [])
              = Inr (0, 0, replicate 10 30) \<and>
            calculateVisibleRowHeights 30 1000 padding (newList 1000 30 300 315 [])
              = Inr (offY, 10, replicate 11 30))"
proof
  define P where "P = 30 + padding"
  have P: "P > 0" using pad by (simp add: P_def)
  assume a: "calculateVisibleRowHeights 30 1000 padding (newList 1000 30 300 0 [])
              = Inr (0, 0, replicate 10 30) \<and>
            calculateVisibleRowHeights 30 1000 padding (newList 1000 30 300 315 [])
              = Inr (offY, 10, replicate 11 30)"
  have c1: "calculateVisibleRowHeights 30 1000 padding (newList 1000 30 300 0 [])
        = Inr (0, 0, replicate (nat ((if \<lceil>300 / P\<rceil> > 999 then 999 else \<lceil>300 / P\<rceil>) + 1)) 30)"
    by (simp add: calculateVisibleRowHeights_def newList_def Let_def P_def)
  with a have "replicate (nat ((if \<lceil>300 / P\<rceil> > 999 then 999 else \<lceil>300 / P\<rceil>) + 1)) (30::real)
                = replicate 10 30" by simp
  then have "nat ((if \<lceil>300 / P\<rceil> > 999 then 999 else \<lceil>300 / P\<rceil>) + 1) = 10"
    by (metis length_replicate)
  then have "\<lceil>300 / P\<rceil> = 9" by (simp split: if_splits)
  then have "300 / P \<le> 9" by (metis ceiling_le_iff of_int_numeral order_refl)
  with P have lo: "300 \<le> 9 * P" by (simp add: pos_divide_le_eq)
  have fl: "\<lfloor>(of_int \<lfloor>315 / P\<rfloor> * P) / P\<rfloor> = \<lfloor>315 / P\<rfloor>" using P by simp
  have "\<exists>y hs. calculateVisibleRowHeights 30 1000 padding (newList 1000 30 300 315 [])
        = Inr (y, (let m1 = (if \<lfloor>315 / P\<rfloor> > 999 then 999 else \<lfloor>315 / P\<rfloor>)
                   in if m1 < 0 then 0 else m1), hs)"
    using fl by (simp add: calculateVisibleRowHeights_def newList_def Let_def P_def)
  with a have "(let m1 = (if \<lfloor>315 / P\<rfloor> > 999 then 999 else \<lfloor>315 / P\<rfloor>)
                   in if m1 < 0 then 0 else m1) = 10" by auto
  then have "\<lfloor>315 / P\<rfloor> = 10" by (simp add: Let_def split: if_splits)
  then have "10 \<le> 315 / P" by (metis floor_le_iff not_le of_int_numeral order_refl le_floor_iff)
  with P have "10 * P \<le> 315" by (simp add: pos_le_divide_eq)
  with lo show False by simp
qed

text \<open>
  The same scenario with the padding 4 of the host's default theme: ten rows \<open>[0, 10)\<close>
  at offset 0, and ten rows \<open>[9, 19)\<close> at offset 315.
\<close>

lemma scenario_with_theme_padding:
  "calculateVisibleRowHeights 30 1000 4 (newList 1000 30 300 0 []) = Inr (0, 0, replicate 10 30) \<and>
   calculateVisibleRowHeights 30 1000 4 (newList 1000 30 300 315 []) = Inr (306, 9, replicate 10 30)"
  by (simp add: calculateVisibleRowHeights_def newList_def)

text \<open>
  The rows of the scenario after a whole pass, and what the linear scan computes for the
  same geometry once the height table is not empty.
\<close>

lemma scenario_rows_after_pass:
  "map vis_id (visible (projr (updateList 0 True (newList 1000 30 300 0 [])))) = [0..10] \<and>
   map vis_id (visible (projr (updateList 0 True (newList 1000 30 300 315 [])))) = [10..20]"
  by code_simp

lemma scenario_by_linear_scan:
  "calculateVisibleRowHeights 30 1000 0 (newList 1000 30 300 0 [(5000, 50)])
     = Inr (0, 0, replicate 10 30) \<and>
   calculateVisibleRowHeights 30 1000 0 (newList 1000 30 300 315 [(5000, 50)])
     = Inr (300, 10, replicate 11 30)"
  by code_simp

text \<open>
  C6. When the height of the scroller is zero or negative, the visible-range computation
  returns no row height, whatever the offset, the item count and the height table are;
  a reconciliation pass then returns without a panic, with an empty visible set, without
  allocating an item and without calling \<^verbatim>\<open>UpdateItem\<close> (the only event it can add is the
  error logged for a missing \<^verbatim>\<open>UpdateItem\<close> callback).
\<close>

theorem nonpositive_viewport_renders_nothing:
  assumes sc: "scroller l = Some sc" and h: "Size_Height sc \<le> 0"
  shows "calculateVisibleRowHeights itemHeight len padding l = Inr (0, 0, []) \<and>
         (\<exists>l'. updateList padding newOnly l = Inr l' \<and> visible l' = [] \<and>
               visibleRowHeights l' = [] \<and> heap l' = heap l \<and>
               trace l' = (if UpdateItem l then trace l else trace l @ [LogError]))"
proof
  show "calculateVisibleRowHeights itemHeight len padding l = Inr (0, 0, [])"
    using sc h by (simp add: calculateVisibleRowHeights_def)
next
  have "scroller (beginPass l) = Some sc"
    using sc beginPass_fields(1)[of l] widget_fields(8) by metis
  then have calc: "calculateVisibleRowHeights (itemMin_Height (beginPass l)) (listLen l) padding (beginPass l)
                   = Inr (0, 0, [])"
    using h by (simp add: calculateVisibleRowHeights_def)
  show "\<exists>l'. updateList padding newOnly l = Inr l' \<and> visible l' = [] \<and>
               visibleRowHeights l' = [] \<and> heap l' = heap l \<and>
               trace l' = (if UpdateItem l then trace l else trace l @ [LogError])"
  proof (cases "listLen l > 0")
    case True
    then have "updateList padding newOnly l = Inr ((beginPass l)\<lparr>visibleRowHeights := []\<rparr>)"
      using calc by (simp add: updateList_unfold)
    then show ?thesis by (simp add: beginPass_fields)
  next
    case False
    define l3 where "l3 = (beginPass l)\<lparr>visibleRowHeights := [], children := []\<rparr>"
    have u: "updateList padding newOnly l = Inr (endPass newOnly l3)"
      using calc False by (simp add: updateList_unfold l3_def)
    have v: "visible (releaseItems (wasVisible l3) l3) = []"
      by (simp add: releaseItems_frame l3_def beginPass_fields)
    have "endPass newOnly l3 = (releaseItems (wasVisible l3) l3)\<lparr>wasVisible := []\<rparr>"
      unfolding endPass_def v by simp
    then have "visible (endPass newOnly l3) = [] \<and> visibleRowHeights (endPass newOnly l3) = [] \<and>
       heap (endPass newOnly l3) = heap l \<and> trace (endPass newOnly l3) = trace (beginPass l)"
      by (simp add: releaseItems_frame l3_def beginPass_fields)
    then show ?thesis using u by (simp add: beginPass_fields)
  qed
qed

theorem nonpositive_viewport_renders_nothing_witness:
  "calculateVisibleRowHeights 10 5 0 (newList 5 10 (-3) 20 []) = Inr (0, 0, []) \<and>
   (\<exists>l'. updateList 0 True (newList 5 10 (-3) 20 []) = Inr l' \<and> visible l' = [] \<and>
         visibleRowHeights l' = [] \<and> heap l' = [] \<and> trace l' = [])"
  using nonpositive_viewport_renders_nothing
          [of "newList 5 10 (-3) 20 []" "\<lparr>Offset_Y = 20, Size_Height = -3\<rparr>" 10 5 0 True]
  by (simp add: newList_def)

section \<open>Selection: the requests that are ignored\<close>

text \<open>
  C5. For every \<open>id\<close> below 0 or at or beyond the item count (0 when there is no
  \<^verbatim>\<open>Length\<close> callback), \<^verbatim>\<open>Select(id)\<close> and \<^verbatim>\<open>ScrollTo(id)\<close> return the state they were
  given: no callback fires (the trace is part of the state) and neither the selection nor
  the scroll offset changes.
\<close>

theorem out_of_range_ignored:
  "ident < 0 \<or> ident \<ge> listLen l \<Longrightarrow>
   Select padding ident l = Inr l \<and> ScrollTo padding ident l = Inr l"
  by (auto simp: Select_def ScrollTo_def Let_def listLen_def)

theorem out_of_range_ignored_witness:
  "Select 0 5 (newList 5 10 25 0 []) = Inr (newList 5 10 25 0 []) \<and>
   ScrollTo 0 5 (newList 5 10 25 0 []) = Inr (newList 5 10 25 0 []) \<and>
   Select 0 (-1) (newList 5 10 25 0 []) = Inr (newList 5 10 25 0 []) \<and>
   ScrollTo 0 (-1) (newList 5 10 25 0 []) = Inr (newList 5 10 25 0 [])"
  using out_of_range_ignored [of 5 "newList 5 10 25 0 []" 0]
        out_of_range_ignored [of "-1" "newList 5 10 25 0 []" 0]
  by (simp add: listLen_def newList_def)

text \<open>
  C10. \<^verbatim>\<open>Select(id)\<close> on the item that is already selected (the head of the selection)
  returns the state it was given: selection, focus, scroll offset and trace are the same, so
  neither \<^verbatim>\<open>OnUnselected\<close> nor \<^verbatim>\<open>OnSelected\<close> fires.
\<close>

theorem Select_current_is_noop:
  "selected l = ident # rest \<Longrightarrow> Select padding ident l = Inr l"
  by (simp add: Select_def)

theorem Select_current_is_noop_witness:
  "Select 0 3 ((newList 5 10 25 0 [])\<lparr>selected := [3]\<rparr>) = Inr ((newList 5 10 25 0 [])\<lparr>selected := [3]\<rparr>)"
  using Select_current_is_noop [of "(newList 5 10 25 0 [])\<lparr>selected := [3]\<rparr>" 3 "[]" 0]
  by simp

section \<open>The sorted invariant\<close>

text \<open>
  C2. After every reconciliation pass that returns, for every padding, offset, viewport
  size, item count and previous state, the visible set is strictly ascending by row ID
  (its IDs are \<open>minRow, minRow + 1, \<dots>\<close>), and so the binary search of the next pass
  is sound on it: it finds every row of the set with its handle, and finds nothing for a
  row that is not in the set.
\<close>

theorem updateList_visible_ascending:
  assumes "updateList padding newOnly l = Inr l'"
  shows "sorted_wrt (<) (map vis_id (visible l')) \<and>
         (\<forall>v \<in> set (visible l'). searchVisible (visible l') (vis_id v) = Some (vis_item v)) \<and>
         (\<forall>i c. searchVisible (visible l') i = Some c \<longrightarrow> \<lparr>vis_item = c, vis_id = i\<rparr> \<in> set (visible l'))"
proof -
  have s: "sorted_wrt (<) (map vis_id (visible l'))"
    using updateList_visible_ids[OF assms] sorted_rows by auto
  then show ?thesis
    using searchVisible_sorted[OF s] searchVisible_Some_mem by blast
qed

theorem updateList_visible_ascending_witness:
  "\<exists>l'. updateList 0 True (newList 5 10 25 0 []) = Inr l' \<and>
        map vis_id (visible l') = [0, 1, 2, 3] \<and> sorted_wrt (<) (map vis_id (visible l'))"
proof -
  have "\<not> isl (updateList 0 True (newList 5 10 25 0 []))"
    by code_simp
  then obtain l' where u: "updateList 0 True (newList 5 10 25 0 []) = Inr l'"
    by (cases "updateList 0 True (newList 5 10 25 0 [])") auto
  have "map vis_id (visible (projr (updateList 0 True (newList 5 10 25 0 [])))) = [0, 1, 2, 3]"
    by code_simp
  with u have v: "map vis_id (visible l') = [0, 1, 2, 3]" by simp
  from updateList_visible_ascending[OF u] have "sorted_wrt (<) (map vis_id (visible l'))" ..
  with u v show ?thesis
    by (intro exI[of _ l'] conjI)
qed

section \<open>Selecting another item\<close>

text \<open>
  C3. Let \<open>id\<close> be a valid row, different from the selected one \<open>old\<close>, with both
  selection callbacks set. Then \<^verbatim>\<open>Select(id)\<close> returns whenever items can be created,
  and whenever it returns the selection is exactly \<open>[id]\<close> and the events it added to
  the trace are row updates followed by exactly one \<^verbatim>\<open>OnUnselected(old)\<close> and then one
  \<^verbatim>\<open>OnSelected(id)\<close>, in this order.
\<close>

theorem Select_unselects_then_selects:
  assumes len: "0 \<le> ident" "ident < listLen l"
    and sel: "selected l = old # rest" "ident \<noteq> old"
    and cb: "OnSelected l" "OnUnselected l"
  shows "(CreateItem l \<longrightarrow> (\<exists>l'. Select padding ident l = Inr l')) \<and>
         (\<forall>l'. Select padding ident l = Inr l' \<longrightarrow>
               selected l' = [ident] \<and>
               (\<exists>es. trace l' = trace l @ es @ [OnUnselectedCall old, OnSelectedCall ident] \<and>
                     (\<forall>e\<in>set es. \<not> selectionEvent e)))"
proof (intro conjI impI allI)
  assume "CreateItem l"
  then show "\<exists>l'. Select padding ident l = Inr l'" by (rule Select_total)
next
  fix l'
  assume run: "Select padding ident l = Inr l'"
  define l1 where "l1 = l\<lparr>selected := [ident]\<rparr>"
  from run len sel obtain l2 l3 where
    s: "scrollTo padding ident l1 = Inr l2" and r: "Refresh padding l2 = Inr l3" and
    l': "l' = (let l4 = (if OnUnselected l3 \<and> selected l \<noteq> []
                         then l3\<lparr>trace := trace l3 @ [OnUnselectedCall (hd (selected l))]\<rparr>
                         else l3);
                   l5 = (if OnSelected l4
                         then l4\<lparr>trace := trace l4 @ [OnSelectedCall ident]\<rparr>
                         else l4)
               in l5)"
    unfolding Select_def l1_def listLen_def Let_def
    by (auto split: sum.splits if_splits)
  have c: "callbacks l3 = callbacks l1" and q: "quiet (trace l1) (trace l3)"
    using scrollTo_frame[OF s] Refresh_frame[OF r] quiet_trans by (simp, blast)
  from c cb have f: "OnSelected l3" "OnUnselected l3" "selected l3 = [ident]"
    by (simp_all add: callbacks_def l1_def)
  from l' f sel have e: "l' = l3\<lparr>trace := trace l3 @ [OnUnselectedCall old, OnSelectedCall ident]\<rparr>"
    by (simp add: Let_def)
  from q obtain es where es: "trace l3 = trace l @ es" "\<forall>e\<in>set es. \<not> selectionEvent e"
    by (auto simp: quiet_def l1_def)
  from e f(3) show "selected l' = [ident]" by simp
  from e es show "\<exists>es. trace l' = trace l @ es @ [OnUnselectedCall old, OnSelectedCall ident] \<and>
                     (\<forall>e\<in>set es. \<not> selectionEvent e)"
    by simp
qed

theorem Select_unselects_then_selects_witness:
  "\<exists>l'. Select 0 7 (laidOut\<lparr>selected := [5]\<rparr>) = Inr l' \<and> selected l' = [7] \<and>
        filter selectionEvent (trace l') = [OnUnselectedCall 5, OnSelectedCall 7]"
proof -
  let ?l = "laidOut\<lparr>selected := [5]\<rparr>"
  have h: "(0::int) \<le> 7" "7 < listLen ?l" "selected ?l = 5 # []" "(7::int) \<noteq> 5"
    "OnSelected ?l" "OnUnselected ?l" "CreateItem ?l"
    by code_simp+
  have q: "filter selectionEvent (trace ?l) = []"
    by code_simp
  note t = Select_unselects_then_selects[OF h(1-6), of 0]
  from t h(7) obtain l' where run: "Select 0 7 ?l = Inr l'" by blast
  with t obtain es where "selected l' = [7]"
    "trace l' = trace ?l @ es @ [OnUnselectedCall 5, OnSelectedCall 7]"
    "\<forall>e\<in>set es. \<not> selectionEvent e"
    by blast
  with run q show ?thesis by (intro exI[of _ l']) simp
qed

text \<open>
  The scenario of the specification, \<^verbatim>\<open>Select(5)\<close> and then \<^verbatim>\<open>Select(7)\<close>, evaluated.
\<close>

lemma Select_5_then_7:
  "filter selectionEvent (trace (projr (Select 0 7 (projr (Select 0 5 laidOut)))))
     = [OnSelectedCall 5, OnUnselectedCall 5, OnSelectedCall 7] \<and>
   selected (projr (Select 0 7 (projr (Select 0 5 laidOut)))) = [7]"
  by code_simp

section \<open>Handles are kept across a pass\<close>

text \<open>
  C4. Let the rows known before a pass ascend strictly, as they do after any earlier pass.
  A row that is visible before the pass and is visible after it keeps its handle: the
  very pair of handle and row of the old visible set is in the new one. This holds for
  every change of offset, size or item count between the passes, and so for the row \<open>k\<close> that
  stays visible when the offset moves by less than a row height.
\<close>

theorem updateList_keeps_handle:
  assumes s: "sorted_wrt (<) (map vis_id (wasVisible l @ visible l))"
    and u: "updateList padding newOnly l = Inr l'"
    and v: "v \<in> set (visible l)"
    and k: "vis_id v \<in> vis_id ` set (visible l')"
  shows "v \<in> set (visible l')"
  using u
proof (cases rule: updateList_cases)
  case (early offY minRow)
  with k show ?thesis by (simp add: beginPass_fields)
next
  case (full offY minRow hs l4)
  let ?l3 = "(beginPass l)\<lparr>visibleRowHeights := hs, children := []\<rparr>"
  have vl: "visible l' = visible l4" using full(4) by (simp add: endPass_fields)
  with k obtain w where w: "w \<in> set (visible l4)" "vis_id w = vis_id v" by auto
  have W: "wasVisible ?l3 = wasVisible l @ visible l" "visible ?l3 = []"
    by (simp_all add: beginPass_fields)
  have "searchVisible (wasVisible l @ visible l) (vis_id v) = Some (vis_item v)"
    using searchVisible_sorted[OF s, of v] v by simp
  with layoutRows_reuse[OF full(3) w(1)] W w(2) have "vis_item w = vis_item v" by simp
  with w(2) have "w = v" by simp
  with w(1) vl show ?thesis by simp
qed

theorem updateList_keeps_handle_witness:
  "\<lparr>vis_item = 2, vis_id = 2\<rparr> \<in> set (visible (laidOut\<lparr>offsetY := 7\<rparr>)) \<and>
   (\<exists>l'. updateList 0 True (laidOut\<lparr>offsetY := 7\<rparr>) = Inr l' \<and>
         \<lparr>vis_item = 2, vis_id = 2\<rparr> \<in> set (visible l'))"
proof -
  let ?l = "laidOut\<lparr>offsetY := 7\<rparr>"
  have s: "sorted_wrt (<) (map vis_id (wasVisible ?l @ visible ?l))"
    by code_simp
  have v: "\<lparr>vis_item = 2, vis_id = 2\<rparr> \<in> set (visible ?l)"
    by code_simp
  have "\<not> isl (updateList 0 True ?l)"
    by code_simp
  then obtain l' where u: "updateList 0 True ?l = Inr l'"
    by (cases "updateList 0 True ?l") auto
  have "vis_id \<lparr>vis_item = 2, vis_id = 2\<rparr> \<in> vis_id ` set (visible (projr (updateList 0 True ?l)))"
    by code_simp
  with u have k: "vis_id \<lparr>vis_item = 2, vis_id = 2\<rparr> \<in> vis_id ` set (visible l')" by simp
  from updateList_keeps_handle[OF s u v k] u v show ?thesis by blast
qed

text \<open>
  The same after the offset has moved by a whole row: the rows 1, 2 and 3 keep their
  handles, the row 4 gets a new one, the handle of row 0 goes to the pool.
\<close>

lemma scrolledOnce_rows:
  "visible scrolledOnce =
     [\<lparr>vis_item = 1, vis_id = 1\<rparr>, \<lparr>vis_item = 2, vis_id = 2\<rparr>,
      \<lparr>vis_item = 3, vis_id = 3\<rparr>, \<lparr>vis_item = 4, vis_id = 4\<rparr>] \<and>
   itemPool scrolledOnce = [0]"
  by code_simp

section \<open>Recycled handles\<close>

text \<open>
  C9, as amended. Nothing is cleared when a handle is released: after a pass every handle
  in the pool has the very item it had before the pass, with the row and the tap handler
  of its last binding. The binding is overwritten when the handle is bound again: after
  every pass from a well-formed state, every handle of the visible set, recycled or not,
  stores the row it is bound to and has a tap handler that selects this row.
\<close>

theorem updateList_rebinds_recycled:
  assumes "wellFormed l" and "updateList padding newOnly l = Inr l'"
  shows "(\<forall>v \<in> set (visible l').
            item_id (heap l' ! vis_item v) = vis_id v \<and>
            onTapped (heap l' ! vis_item v) = Some (vis_id v)) \<and>
         (\<forall>h \<in> set (itemPool l'). h < length (heap l) \<and> heap l' ! h = heap l ! h)"
  using updateList_wellFormed[OF assms] unfolding wellFormed_def bound_def by simp

theorem updateList_rebinds_recycled_witness:
  "wellFormed (scrolledOnce\<lparr>offsetY := 20\<rparr>) \<and>
   (\<exists>l'. updateList 0 True (scrolledOnce\<lparr>offsetY := 20\<rparr>) = Inr l' \<and>
         \<lparr>vis_item = 0, vis_id = 5\<rparr> \<in> set (visible l') \<and>
         item_id (heap l' ! 0) = 5 \<and> onTapped (heap l' ! 0) = Some 5 \<and>
         itemPool l' = [1] \<and> heap l' ! 1 = heap scrolledOnce ! 1)"
proof -
  let ?l = "scrolledOnce\<lparr>offsetY := 20\<rparr>"
  have w: "wellFormed ?l"
    by code_simp
  have "\<not> isl (updateList 0 True ?l)"
    by code_simp
  then obtain l' where u: "updateList 0 True ?l = Inr l'"
    by (cases "updateList 0 True ?l") auto
  have "\<lparr>vis_item = 0, vis_id = 5\<rparr> \<in> set (visible (projr (updateList 0 True ?l))) \<and>
        itemPool (projr (updateList 0 True ?l)) = [1]"
    by code_simp
  with u have m: "\<lparr>vis_item = 0, vis_id = 5\<rparr> \<in> set (visible l')" "itemPool l' = [1]" by simp_all
  note t = updateList_rebinds_recycled[OF w u]
  from t m(1) have "item_id (heap l' ! 0) = 5 \<and> onTapped (heap l' ! 0) = Some 5" by fastforce
  moreover from t m(2) have "heap l' ! 1 = heap scrolledOnce ! 1" by simp
  ultimately show ?thesis using w u m by blast
qed

text \<open>
  One pass later the handle 0 is bound to row 5 and stores it.
\<close>

lemma scrolledTwice_rows:
  "visible scrolledTwice =
     [\<lparr>vis_item = 2, vis_id = 2\<rparr>, \<lparr>vis_item = 3, vis_id = 3\<rparr>,
      \<lparr>vis_item = 4, vis_id = 4\<rparr>, \<lparr>vis_item = 0, vis_id = 5\<rparr>] \<and>
   item_id (heap scrolledTwice ! 0) = 5 \<and> onTapped (heap scrolledTwice ! 0) = Some 5 \<and>
   itemPool scrolledTwice = [1]"
  by code_simp

text \<open>
  C9, as stated, fails. After the offset has moved to 10, the handle 0 of row 0 is in the
  pool and still stores row 0 and a tap handler for row 0; \<open>getItem\<close> hands it out for
  reuse in this condition. Only the binding at the end of the next pass overwrites it.
\<close>

theorem released_handle_keeps_row_counterexample:
  "itemPool scrolledOnce = [0] \<and> 0 \<notin> vis_id ` set (visible scrolledOnce) \<and>
   item_id (heap scrolledOnce ! 0) = 0 \<and> onTapped (heap scrolledOnce ! 0) = Some 0 \<and>
   fst (projr (getItem scrolledOnce)) = 0 \<and>
   item_id (heap (snd (projr (getItem scrolledOnce))) ! 0) = 0 \<and>
   onTapped (heap (snd (projr (getItem scrolledOnce))) ! 0) = Some 0"
  by code_simp

section \<open>The scroll offset\<close>

text \<open>
  C7, at the failing input. The offset of the list is to stay between 0 and the content
  height less the viewport height. In \<open>overridden\<close> the content is 61 high and fits the
  viewport of height 80, the offset is 0 and the three rows are visible. \<^verbatim>\<open>scrollTo(2)\<close>,
  which \<^verbatim>\<open>ScrollTo(2)\<close> and \<^verbatim>\<open>Select(2)\<close> call, finds the top of row 2 at 60, tests
  \<open>60 + 30 > 0 + 80\<close> with the height of the template and then assigns
  \<open>60 + 1 - 80\<close> with the height of the row: the offset of the scroller and of the list
  becomes \<open>-19\<close>, and the pass that follows finds no visible row.
\<close>

theorem scrollTo_leaves_scroll_range:
  "contentMinSize_Height 0 overridden = 61 \<and> list_Height overridden = 80 \<and>
   offsetY overridden = 0 \<and> map vis_id (visible overridden) = [0, 1, 2] \<and>
   \<not> isl (scrollTo 0 2 overridden) \<and>
   offsetY (projr (scrollTo 0 2 overridden)) = - 19 \<and>
   map_option Offset_Y (scroller (projr (scrollTo 0 2 overridden))) = Some (- 19) \<and>
   visible (projr (scrollTo 0 2 overridden)) = []"
  by code_simp

section \<open>Height overrides beyond the end of the list\<close>




text \<open>
  The same with the padding 4 of the host's default theme: the rows \<open>0..9\<close> before,
  the rows \<open>0..8\<close> after.
\<close>

lemma stale_entry_with_theme_padding:
  "map vis_id (visible (projr (updateList 4 True (newList 1000 30 300 0 [])))) = [0..9] \<and>
   map vis_id (visible (projr (SetItemHeight 4 5000 50
                   (projr (updateList 4 True (newList 1000 30 300 0 [])))))) = [0..8]"
  by code_simp

text \<open>
  The insertion point of a dragged row is computed only while the height table is empty,
  so an override beyond the end of the list stops it as well: with the pointer 100 below
  the top of the 1000 rows the separator goes before row 3, and with the entry for row
  5000 in the table no row is written and the position is 0.
\<close>

lemma drag_separator_needs_empty_table:
  "scroller l = Some sc \<Longrightarrow> 0 < Size_Height sc \<Longrightarrow> itemHeights l \<noteq> [] \<Longrightarrow>
   calculateDragSeparatorY thickness padding dragRelativeY l = Inr (0, None)"
  by (simp add: calculateDragSeparatorY_def Let_def)

lemma stale_entry_stops_drag_separator:
  "calculateDragSeparatorY (3 / 2) 0 100 (newList 1000 30 300 0 []) = Inr (177 / 2, Some 3) \<and>
   calculateDragSeparatorY (3 / 2) 0 100 (newList 1000 30 300 0 (AList.update 5000 50 []))
     = Inr (0, None)"
  by (simp add: calculateDragSeparatorY_def goRound_def newList_def)

end
